theory Spec2Isabelle
  imports Complex_Main
begin

section \<open>Errors and arrays\<close>

text \<open>
  The exceptions the modelled code can raise. A function that raises returns \<open>Inl e\<close>.
\<close>

datatype error =
    ValueError string
  | TypeError string
  | IndexError string
  | ZeroDivisionError
  | OverflowError string

text \<open>
  A numpy array of floats: its shape and its entries in row-major order. Floats are
  modelled as real numbers. \<open>ndim\<close> is the rank.
\<close>

record ndarray =
  shape :: "nat list"
  entries :: "real list"

definition ndim :: "ndarray \<Rightarrow> nat" where
  "ndim a = length (shape a)"

text \<open>Decimal digits of a natural number, as \<open>str\<close> prints an int.\<close>

fun str_nat :: "nat \<Rightarrow> string" where
  "str_nat n =
     (if n < 10 then [char_of (48 + n)]
      else str_nat (n div 10) @ [char_of (48 + n mod 10)])"

declare str_nat.simps [simp del]

text \<open>
  Python's \<open>fmt % t\<close> for a format string \<open>fmt\<close> with exactly one \<open>%s\<close> and a tuple
  \<open>t\<close> of ints: a tuple on the right of \<open>%\<close> is the argument list, so it must have
  exactly one element. \<open>pre\<close> and \<open>post\<close> are the text before and after the \<open>%s\<close>.
\<close>

definition format_one :: "string \<Rightarrow> string \<Rightarrow> nat list \<Rightarrow> error + string" where
  "format_one pre post t =
     (case t of
        [] \<Rightarrow> Inl (TypeError ''not enough arguments for format string'')
      | [n] \<Rightarrow> Inr (pre @ str_nat n @ post)
      | _ \<Rightarrow> Inl (TypeError ''not all arguments converted during string formatting''))"

section \<open>MultiPatternStateSpace\<close>

text \<open>
  Modelled from the spec: the class MultiPatternStateSpace (madmom.features.beats_hmm)
  is not among the sources. For each pattern \<open>p\<close> with \<open>beats_per_bar[p] = B\<close> the
  state space allocates \<open>B\<close> consecutive global state indices for the bar positions
  \<open>0..B-1\<close>, and records for every global state its pattern and its position; the
  total state count is the sum of the beats per bar.
\<close>

definition state_patterns :: "nat list \<Rightarrow> nat list" where
  "state_patterns beats_per_bar =
     concat (map (\<lambda>(p, B). replicate B p) (enumerate 0 beats_per_bar))"

definition state_positions :: "nat list \<Rightarrow> nat list" where
  "state_positions beats_per_bar = concat (map (\<lambda>B. [0..<B]) beats_per_bar)"

definition num_states :: "nat list \<Rightarrow> nat" where
  "num_states beats_per_bar = sum_list beats_per_bar"

section \<open>GMMDownBeatTrackingObservationModel\<close>

text \<open>
  The constructor's pointers: for each pattern \<open>p\<close> of \<open>gmms\<close> in turn, the states of
  pattern \<open>p\<close> point to their position plus the offset, and the offset grows by the
  number of positions \<open>gmms[p]\<close> has models for. States of no such pattern keep 0.
\<close>

fun assign_pointers ::
  "nat list \<Rightarrow> nat list \<Rightarrow> 'g list list \<Rightarrow> nat \<Rightarrow> nat \<Rightarrow> nat list \<Rightarrow> nat list"
where
  "assign_pointers pattern position [] p offset ptrs = ptrs"
| "assign_pointers pattern position (g # gs) p offset ptrs =
     assign_pointers pattern position gs (Suc p) (offset + length g)
       (map (\<lambda>s. if pattern ! s = p then position ! s + offset else ptrs ! s)
          [0..<length ptrs])"

definition pointers :: "nat list \<Rightarrow> 'g list list list \<Rightarrow> nat list" where
  "pointers beats_per_bar gmms =
     assign_pointers (state_patterns beats_per_bar) (state_positions beats_per_bar) gmms 0 0
       (replicate (num_states beats_per_bar) 0)"

text \<open>
  \<open>observations[:, [bd], :]\<close> squeezed on axis 1, for a rank-3 array of shape
  \<open>[n, m, d]\<close>: the list, over the beats \<open>b < n\<close>, of the feature vector of
  subdivision \<open>bd\<close>. An index \<open>bd \<ge> m\<close> raises IndexError.
\<close>

definition feature_vector :: "ndarray \<Rightarrow> nat \<Rightarrow> nat \<Rightarrow> real list" where
  "feature_vector obs b bd =
     (let m = shape obs ! 1; d = shape obs ! 2
      in take d (drop ((b * m + bd) * d) (entries obs)))"

definition subdivision_rows :: "ndarray \<Rightarrow> nat \<Rightarrow> error + real list list" where
  "subdivision_rows obs bd =
     (if bd < shape obs ! 1
      then Inr (map (\<lambda>b. feature_vector obs b bd) [0..<shape obs ! 0])
      else Inl (IndexError ''index out of bounds for axis 1''))"

text \<open>
  The loop over the beat divisions of one (pattern, position): starting from a zero
  column, add for each division \<open>bd\<close> the scores of the division's mixture model on
  the beats' subdivision-\<open>bd\<close> feature vectors. The fitted mixture models are external
  objects: \<open>score g x\<close> is the log-density model \<open>g\<close> gives the feature vector \<open>x\<close>.
\<close>

fun add_scores ::
  "('g \<Rightarrow> real list \<Rightarrow> real) \<Rightarrow> ndarray \<Rightarrow> 'g list \<Rightarrow> nat \<Rightarrow> real list \<Rightarrow> error + real list"
where
  "add_scores score obs [] bd col = Inr col"
| "add_scores score obs (g # gs) bd col =
     (case subdivision_rows obs bd of
        Inl e \<Rightarrow> Inl e
      | Inr X \<Rightarrow> add_scores score obs gs (Suc bd) (map2 (+) col (map (score g) X)))"

text \<open>The columns of the density table, in the order the counter \<open>c\<close> runs through.\<close>

fun density_columns ::
  "('g \<Rightarrow> real list \<Rightarrow> real) \<Rightarrow> ndarray \<Rightarrow> 'g list list \<Rightarrow> error + real list list"
where
  "density_columns score obs [] = Inr []"
| "density_columns score obs (gs # rest) =
     (case add_scores score obs gs 0 (replicate (shape obs ! 0) 0) of
        Inl e \<Rightarrow> Inl e
      | Inr col \<Rightarrow>
          (case density_columns score obs rest of
             Inl e \<Rightarrow> Inl e
           | Inr cols \<Rightarrow> Inr (col # cols)))"

text \<open>
  \<open>log_densities\<close>: the rank check, then the table with one row per beat and one
  column per (pattern, position), the patterns' lists stacked in order. The result is
  the list of rows.
\<close>

definition log_densities ::
  "('g \<Rightarrow> real list \<Rightarrow> real) \<Rightarrow> 'g list list list \<Rightarrow> ndarray \<Rightarrow> error + real list list"
where
  "log_densities score gmms observations =
     (if ndim observations \<noteq> 3 then
        (case format_one ''Got observations shape: ''
                '', expected (n_beats, n_subdivisions, feat_dim)'' (shape observations) of
           Inl e \<Rightarrow> Inl e
         | Inr msg \<Rightarrow> Inl (ValueError msg))
      else
        (case density_columns score observations (concat gmms) of
           Inl e \<Rightarrow> Inl e
         | Inr cols \<Rightarrow>
             Inr (map (\<lambda>b. map (\<lambda>col. col ! b) cols) [0..<shape observations ! 0])))"

section \<open>Numeric helpers of numpy\<close>

text \<open>
  \<open>np.round\<close> rounds to the nearest integer, a half to the even neighbour.
\<close>

definition round_half_even :: "real \<Rightarrow> int" where
  "round_half_even x =
     (let f = \<lfloor>x\<rfloor>; d = x - of_int f
      in if d < 1 / 2 then f else if 1 / 2 < d then f + 1 else if even f then f else f + 1)"

text \<open>
  \<open>np.linspace(start, stop, num)\<close>: \<open>num\<close> evenly spaced samples from \<open>start\<close> to
  \<open>stop\<close>, both included; a single sample is \<open>start\<close>.
\<close>

definition linspace :: "real \<Rightarrow> real \<Rightarrow> nat \<Rightarrow> real list" where
  "linspace start stop num =
     (if num = 1 then [start]
      else map (\<lambda>i. start + real i * ((stop - start) / real (num - 1))) [0..<num])"

text \<open>\<open>np.diff\<close>: the differences of neighbouring entries.\<close>

definition diff :: "int list \<Rightarrow> int list" where
  "diff xs = map (\<lambda>i. xs ! Suc i - xs ! i) [0..<length xs - 1]"

text \<open>
  \<open>np.interp(x, xp, fp)\<close> at one point, for sample points \<open>(xp[i], fp[i])\<close> with
  increasing \<open>xp\<close>: the piecewise linear interpolant, constant before the first and
  after the last sample point.
\<close>

fun interp_points :: "real \<Rightarrow> (real \<times> real) list \<Rightarrow> real" where
  "interp_points x [] = 0"
| "interp_points x [(x0, y0)] = y0"
| "interp_points x ((x0, y0) # (x1, y1) # ps) =
     (if x \<le> x0 then y0
      else if x < x1 then y0 + (x - x0) * ((y1 - y0) / (x1 - x0))
      else interp_points x ((x1, y1) # ps))"

text \<open>\<open>np.interp\<close> raises ValueError when there are no sample points.\<close>

definition np_interp :: "real list \<Rightarrow> real list \<Rightarrow> real list \<Rightarrow> error + real list" where
  "np_interp xs xp fp =
     (if xp = [] then Inl (ValueError ''array of sample points is empty'')
      else if length fp \<noteq> length xp then Inl (ValueError ''fp and xp are not of the same length.'')
      else Inr (map (\<lambda>x. interp_points x (zip xp fp)) xs))"

text \<open>
  A Python slice \<open>xs[a:b]\<close>: negative indices count from the end, and indices
  outside the list are clipped.
\<close>

definition py_slice :: "'a list \<Rightarrow> int \<Rightarrow> int \<Rightarrow> 'a list" where
  "py_slice xs a b =
     (let n = int (length xs);
          lo = (if a < 0 then max 0 (a + n) else min a n);
          hi = (if b < 0 then max 0 (b + n) else min b n)
      in take (nat (hi - lo)) (drop (nat lo) xs))"

text \<open>\<open>np.mean(x, axis=0)\<close> for a non-empty list of rows with \<open>d\<close> columns.\<close>

definition column_means :: "nat \<Rightarrow> real list list \<Rightarrow> real list" where
  "column_means d x = map (\<lambda>j. (\<Sum>r\<leftarrow>x. r ! j) / real (length x)) [0..<d]"

text \<open>The results of a loop whose body may raise: the first exception ends it.\<close>

fun sequence :: "(error + 'a) list \<Rightarrow> error + 'a list" where
  "sequence [] = Inr []"
| "sequence (r # rs) =
     (case r of
        Inl e \<Rightarrow> Inl e
      | Inr x \<Rightarrow> (case sequence rs of Inl e \<Rightarrow> Inl e | Inr xs \<Rightarrow> Inr (x # xs)))"

section \<open>BeatSyncProcessor, streaming\<close>

text \<open>
  The processor's configuration, and the attributes \<open>process_online\<close> reads and
  writes. \<open>div_frames\<close> and \<open>last_beat\<close> are \<open>None\<close> until they are set. The feature
  is a scalar; \<open>feat_sum\<close>, a scalar that numpy broadcasts over the feature dimension
  or a vector of that length, is kept as the vector. The subdivision lengths are the
  integers \<open>np.round\<close> gives.
\<close>

record sync_config =
  beat_subdivisions :: nat
  feat_dim :: nat
  fps :: real

definition offset :: nat where
  "offset = 2"

record sync_state =
  feat_sum :: "real list"
  counter :: nat
  current_div :: nat
  div_frames :: "int list option"
  last_beat :: "real option"
  beat_features :: "real list list"

definition zeros :: "nat \<Rightarrow> nat \<Rightarrow> real list list" where
  "zeros n d = replicate n (replicate d 0)"

definition init_sync :: "sync_config \<Rightarrow> sync_state" where
  "init_sync cfg =
     \<lparr>feat_sum = replicate (feat_dim cfg) 0, counter = 0, current_div = 0,
      div_frames = None, last_beat = None,
      beat_features = zeros (beat_subdivisions cfg) (feat_dim cfg)\<rparr>"

text \<open>
  The incoming beat is an array holding the beat time, or an empty array when the
  frame has no beat: \<open>Some t\<close> or \<open>None\<close>. \<open>beat.any()\<close> is true when an entry is
  not zero.
\<close>

definition any_beat :: "real option \<Rightarrow> bool" where
  "any_beat beat = (case beat of None \<Rightarrow> False | Some t \<Rightarrow> t \<noteq> 0)"

text \<open>
  The subdivision lengths for a beat interval: the interval in frames is cut evenly
  at \<open>beat_subdivisions + 1\<close> boundaries, the boundaries are rounded, and the lengths
  are their differences. The interval enters as a scalar, so that \<open>np.linspace\<close>
  gives one vector of boundaries.
\<close>

definition subdivision_frames :: "sync_config \<Rightarrow> real \<Rightarrow> int list" where
  "subdivision_frames cfg beat_interval =
     diff (map round_half_even
             (linspace 0 (beat_interval * fps cfg) (beat_subdivisions cfg + 1)))"

text \<open>
  The frame's part of the normal action: the feature is added to the running sum and
  the counter grows; when the counter reaches the current subdivision's length, the
  mean is stored in the subdivision's row, the window moves on (wrapping), and sum and
  counter start again.
\<close>

definition is_end_div :: "int list \<Rightarrow> sync_state \<Rightarrow> bool" where
  "is_end_div dfs st = (dfs ! current_div st \<le> int (counter st + 1))"

definition add_frame :: "sync_config \<Rightarrow> int list \<Rightarrow> sync_state \<Rightarrow> real \<Rightarrow> error + sync_state" where
  "add_frame cfg dfs st feature =
     (let sum1 = map (\<lambda>x. x + feature) (feat_sum st); counter1 = counter st + 1
      in if length dfs \<le> current_div st then Inl (IndexError ''div_frames'')
         else if is_end_div dfs st then
           (if length (beat_features st) \<le> current_div st then Inl (IndexError ''beat_features'')
            else if beat_subdivisions cfg = 0 then Inl ZeroDivisionError
            else Inr (st\<lparr>beat_features :=
                            (beat_features st)[current_div st := map (\<lambda>x. x / real counter1) sum1],
                         current_div := (current_div st + 1) mod beat_subdivisions cfg,
                         feat_sum := replicate (feat_dim cfg) 0,
                         counter := 0\<rparr>))
         else Inr (st\<lparr>feat_sum := sum1, counter := counter1\<rparr>))"

text \<open>
  The beat's part of the normal action, after the frame's: new subdivision lengths
  from the interval since the last beat, the sum carried over for \<open>offset\<close> frames, and
  a fresh buffer of zeros.
\<close>

definition new_beat :: "sync_config \<Rightarrow> sync_state \<Rightarrow> real \<Rightarrow> real \<Rightarrow> error + sync_state" where
  "new_beat cfg st lb t =
     (if beat_features st = [] then Inl (IndexError ''beat_features'')
      else Inr (st\<lparr>div_frames := Some (subdivision_frames cfg (t - lb)),
                   feat_sum :=
                     (if offset < counter st
                      then map (\<lambda>x. x * real offset / real (counter st)) (feat_sum st)
                      else map (\<lambda>x. x * real offset) (last (beat_features st))),
                   counter := offset,
                   last_beat := Some t,
                   current_div := 0,
                   beat_features := zeros (beat_subdivisions cfg) (feat_dim cfg)\<rparr>))"

text \<open>
  \<open>process_online\<close> on one frame. The result is the new state, the beat time passed
  on, and the synchronized features: no feature matrix, or the one of the beat that
  ended.
\<close>

definition process_online ::
  "sync_config \<Rightarrow> sync_state \<Rightarrow> real option \<times> real
     \<Rightarrow> error + sync_state \<times> real option \<times> real list list list"
where
  "process_online cfg st data =
     (let beat = fst data; feature = snd data; is_beat = any_beat beat
      in case last_beat st of
           None \<Rightarrow> Inr (if is_beat then st\<lparr>last_beat := beat\<rparr> else st, None, [])
         | Some lb \<Rightarrow>
             (case div_frames st of
                None \<Rightarrow>
                  Inr (if is_beat
                       then st\<lparr>div_frames := Some (subdivision_frames cfg (the beat - lb)),
                               last_beat := beat\<rparr>
                       else st, None, [])
              | Some dfs \<Rightarrow>
                  (case add_frame cfg dfs st feature of
                     Inl e \<Rightarrow> Inl e
                   | Inr st1 \<Rightarrow>
                       if is_beat then
                         (case new_beat cfg st1 lb (the beat) of
                            Inl e \<Rightarrow> Inl e
                          | Inr st2 \<Rightarrow> Inr (st2, beat, [beat_features st1]))
                       else Inr (st1, beat, []))))"

text \<open>A stream of frames, one call each; the first exception ends the run.\<close>

fun run_online ::
  "sync_config \<Rightarrow> sync_state \<Rightarrow> (real option \<times> real) list
     \<Rightarrow> error + sync_state \<times> (real option \<times> real list list list) list"
where
  "run_online cfg st [] = Inr (st, [])"
| "run_online cfg st (x # xs) =
     (case process_online cfg st x of
        Inl e \<Rightarrow> Inl e
      | Inr (st1, out) \<Rightarrow>
          (case run_online cfg st1 xs of
             Inl e \<Rightarrow> Inl e
           | Inr (st2, outs) \<Rightarrow> Inr (st2, out # outs)))"

text \<open>
  The subdivisions whose mean is stored while a stream is processed: the current
  subdivision of each normal-action frame that ends a subdivision.
\<close>

fun stored_rows :: "sync_config \<Rightarrow> sync_state \<Rightarrow> (real option \<times> real) list \<Rightarrow> nat list" where
  "stored_rows cfg st [] = []"
| "stored_rows cfg st (x # xs) =
     (case process_online cfg st x of
        Inl e \<Rightarrow> []
      | Inr (st1, out) \<Rightarrow>
          (case (last_beat st, div_frames st) of
             (Some lb, Some dfs) \<Rightarrow> if is_end_div dfs st then [current_div st] else []
           | _ \<Rightarrow> [])
          @ stored_rows cfg st1 xs)"

section \<open>BeatSyncProcessor, batch\<close>

text \<open>
  \<open>interpolate_missing\<close>. \<open>feats_sorted\<close> holds, for each subdivision, the feature
  rows that fell into it. The mean of an empty subdivision is a row of NaN (\<open>None\<close>);
  \<open>good_rows\<close> are the rows with an entry that is not NaN, \<open>bad_rows\<close> those with a
  NaN. When there are fewer good rows than subdivisions, each bad row becomes a single
  feature row whose entry in each dimension is \<open>np.interp\<close> of the good rows' means
  over the subdivision indices.
\<close>

definition interpolate_missing ::
  "nat \<Rightarrow> real list list list \<Rightarrow> nat \<Rightarrow> error + real list list list"
where
  "interpolate_missing n_div feats_sorted d =
     (let means = map (\<lambda>x. if 0 < length x then map Some (column_means d x)
                              else replicate d None) feats_sorted;
          rows = [0..<length means];
          good_rows = filter (\<lambda>r. list_ex (\<lambda>v. v \<noteq> None) (means ! r)) rows
      in if length good_rows < n_div then
           (let bad_rows = filter (\<lambda>r. list_ex (\<lambda>v. v = None) (means ! r)) rows
            in case sequence
                 (map (\<lambda>j. np_interp (map real [0..<n_div]) (map real good_rows)
                                (map (\<lambda>r. the (means ! r ! j)) good_rows)) [0..<d]) of
                 Inl e \<Rightarrow> Inl e
               | Inr means_p \<Rightarrow>
                   Inr (map (\<lambda>r. if r \<in> set bad_rows
                                   then [map (\<lambda>j. means_p ! j ! r) [0..<d]]
                                   else feats_sorted ! r) rows))
         else Inr feats_sorted)"


text \<open>
  The feature array is 1-D (one scalar per frame) or 2-D (one row per frame, with its
  number of columns). A beat row is the beat time and the remaining columns of the
  beat array; a 1-D array of beat times has no remaining columns.
\<close>

datatype features = Vector "real list" | Matrix nat "real list list"

definition len_features :: "features \<Rightarrow> nat" where
  "len_features f = (case f of Vector xs \<Rightarrow> length xs | Matrix d rows \<Rightarrow> length rows)"

definition feature_dim :: "features \<Rightarrow> nat" where
  "feature_dim f = (case f of Matrix d rows \<Rightarrow> d | Vector xs \<Rightarrow> 1)"

definition feature_rows :: "features \<Rightarrow> real list list" where
  "feature_rows f = (case f of Matrix d rows \<Rightarrow> rows | Vector xs \<Rightarrow> map (\<lambda>x. [x]) xs)"

definition feature_warnings :: "features \<Rightarrow> string list" where
  "feature_warnings f = (case f of Matrix d rows \<Rightarrow> [] | Vector xs \<Rightarrow> [''FIXME: feature loading''])"

type_synonym beat_row = "real \<times> real list"

text \<open>
  The loop that drops the last beat, with a warning, while the features end before it.
  \<open>w\<close> counts the warnings. \<open>beats[-1, 0]\<close> raises IndexError when no beat is left.
\<close>

function trim_beats :: "sync_config \<Rightarrow> nat \<Rightarrow> beat_row list \<Rightarrow> nat \<Rightarrow> error + beat_row list \<times> nat" where
  "trim_beats cfg len beats w =
     (if fps cfg = 0 then Inl ZeroDivisionError
      else if beats = [] then Inl (IndexError ''index -1 is out of bounds for axis 0 with size 0'')
      else if real len / fps cfg < fst (last beats) then trim_beats cfg len (butlast beats) (Suc w)
      else Inr (beats, w))"
  by pat_completeness auto
termination
  by (relation "measure (\<lambda>(cfg, len, beats, w). length beats)") auto

declare trim_beats.simps [simp del]

text \<open>
  The frames of one beat interval, from frame \<open>start\<close> up to frame \<open>next\<close>, grouped by
  subdivision: frame \<open>k\<close> of the interval falls into the subdivision
  \<open>floor(linspace(1e-8, beat_subdivisions - 1e-8, n_beat_frames)[k])\<close>.
\<close>

definition subdivision_bins :: "sync_config \<Rightarrow> real list list \<Rightarrow> int \<Rightarrow> int \<Rightarrow> real list list list" where
  "subdivision_bins cfg features start next =
     (let n_beat_frames = next - start;
          beat_pos_of_frames =
            map floor (linspace (1 / 100000000) (real (beat_subdivisions cfg) - 1 / 100000000)
                         (nat n_beat_frames));
          features_beat = py_slice features start next
      in map (\<lambda>x. map fst (filter (\<lambda>fp. snd fp = int x) (zip features_beat beat_pos_of_frames)))
           [0..<beat_subdivisions cfg])"

text \<open>
  The body of the loop over the beats, once the frame range is known. A negative
  number of samples makes \<open>np.linspace\<close> raise, and a boolean index of another length
  than the sliced features is an IndexError.
\<close>

definition sync_beat :: "sync_config \<Rightarrow> nat \<Rightarrow> real list list \<Rightarrow> int \<Rightarrow> int \<Rightarrow> error + real list list" where
  "sync_beat cfg d features start next =
     (if next - start < 0 then Inl (ValueError ''Number of samples must be non-negative.'')
      else if 0 < beat_subdivisions cfg \<and>
              length (py_slice features start next) \<noteq> nat (next - start)
      then Inl (IndexError ''boolean index did not match indexed array along axis 0'')
      else
        (case interpolate_missing (beat_subdivisions cfg)
                (subdivision_bins cfg features start next) d of
           Inl e \<Rightarrow> Inl e
         | Inr feats_sorted \<Rightarrow> Inr (map (column_means d) feats_sorted)))"

text \<open>
  The first frame of the next beat: the next beat time, earlier by half a subdivision.
  With no subdivisions the division gives infinity or NaN, which \<open>int\<close> refuses.
\<close>

definition next_beat_frame :: "sync_config \<Rightarrow> real \<Rightarrow> real \<Rightarrow> error + int" where
  "next_beat_frame cfg t0 t1 =
     (if beat_subdivisions cfg = 0 then
        (if t1 - t0 = 0 then Inl (ValueError ''cannot convert float NaN to integer'')
         else Inl (OverflowError ''cannot convert float infinity to integer''))
      else Inr \<lfloor>(t1 - 1 / 2 * (t1 - t0) / real (beat_subdivisions cfg)) * fps cfg\<rfloor>)"

fun sync_loop ::
  "sync_config \<Rightarrow> nat \<Rightarrow> real list list \<Rightarrow> int \<Rightarrow> real list \<Rightarrow> error + real list list list"
where
  "sync_loop cfg d features start (t0 # t1 # ts) =
     (case next_beat_frame cfg t0 t1 of
        Inl e \<Rightarrow> Inl e
      | Inr next \<Rightarrow>
          (case sync_beat cfg d features start next of
             Inl e \<Rightarrow> Inl e
           | Inr beat_feature \<Rightarrow>
               (case sync_loop cfg d features next (t1 # ts) of
                  Inl e \<Rightarrow> Inl e
                | Inr rest \<Rightarrow> Inr (beat_feature # rest))))"
| "sync_loop cfg d features start ts = Inr []"

text \<open>The first beat may be 20 ms early.\<close>

definition first_beat_frame :: "sync_config \<Rightarrow> beat_row list \<Rightarrow> int" where
  "first_beat_frame cfg beats = max 0 \<lfloor>(fst (hd beats) - 1 / 50) * fps cfg\<rfloor>"

text \<open>
  \<open>process_offline\<close>: the beats that are kept, the synchronized features, one
  matrix per beat interval, and the warnings.
\<close>

definition process_offline ::
  "sync_config \<Rightarrow> beat_row list \<Rightarrow> features
     \<Rightarrow> error + beat_row list \<times> real list list list \<times> string list"
where
  "process_offline cfg beats features =
     (if beats = [] then Inr ([], [], [])
      else
        (case trim_beats cfg (len_features features) beats 0 of
           Inl e \<Rightarrow> Inl e
         | Inr (beats1, w) \<Rightarrow>
             (case sync_loop cfg (feature_dim features) (feature_rows features)
                     (first_beat_frame cfg beats1) (map fst beats1) of
                Inl e \<Rightarrow> Inl e
              | Inr synced \<Rightarrow>
                  Inr (beats1, synced,
                       replicate w ''Beat sequence too long compared to features.''
                       @ feature_warnings features))))"

text \<open>
  The frame ranges \<open>(beat_start_frame, first_next_beat_frame)\<close> of the beat intervals,
  as the loop computes them, and those of a call of \<open>process_offline\<close>.
\<close>

fun beat_frames :: "sync_config \<Rightarrow> int \<Rightarrow> real list \<Rightarrow> (int \<times> int) list" where
  "beat_frames cfg start (t0 # t1 # ts) =
     (let next = \<lfloor>(t1 - 1 / 2 * (t1 - t0) / real (beat_subdivisions cfg)) * fps cfg\<rfloor>
      in (start, next) # beat_frames cfg next (t1 # ts))"
| "beat_frames cfg start ts = []"

definition offline_beat_frames :: "sync_config \<Rightarrow> beat_row list \<Rightarrow> features \<Rightarrow> (int \<times> int) list" where
  "offline_beat_frames cfg beats features =
     (case trim_beats cfg (len_features features) beats 0 of
        Inl e \<Rightarrow> []
      | Inr (beats1, w) \<Rightarrow> beat_frames cfg (first_beat_frame cfg beats1) (map fst beats1))"

section \<open>HiddenMarkovModel\<close>

text \<open>
  Modelled from the spec: the transition model (MultiPatternTransitionModel,
  madmom.features.beats_hmm) is not among the sources. From state (p, k) the next
  beat's state is (p, (k+1) mod B_p) with probability 1 - pattern_change_prob; how the
  remaining mass is spread over the other patterns is left open. \<open>next_state\<close> is the
  advance within the pattern, on global state indices, and \<open>bar_transition\<close> the
  transition matrix for pattern_change_prob = 0, the constructor's default. Any other
  transition model is a parameter: a function from two states to a probability.
\<close>

fun next_state :: "nat list \<Rightarrow> nat \<Rightarrow> nat" where
  "next_state [] s = s"
| "next_state (B # bs) s = (if s < B then (s + 1) mod B else B + next_state bs (s - B))"

definition bar_transition :: "nat list \<Rightarrow> nat \<Rightarrow> nat \<Rightarrow> real" where
  "bar_transition beats_per_bar s' s = (if s = next_state beats_per_bar s' then 1 else 0)"

text \<open>\<open>np.argmax\<close>: the first index of the greatest entry.\<close>

fun argmax :: "real list \<Rightarrow> nat" where
  "argmax [] = 0"
| "argmax (x # xs) = (if list_all (\<lambda>y. y \<le> x) xs then 0 else Suc (argmax xs))"

text \<open>
  Modelled from the spec: the class HiddenMarkovModel (madmom.ml.hmm) is not among the
  sources. The forward vector is a probability distribution over the states; each
  call of \<open>forward\<close> updates it by one transition and one observation step and
  renormalises it to sum 1. \<open>candidates tm n v s\<close> lists, for the states \<open>s'\<close>, the
  mass that moves from \<open>s'\<close> to \<open>s\<close>; \<open>dens\<close> gives the observation density of each
  state.
\<close>

definition normalise :: "real list \<Rightarrow> real list" where
  "normalise v = map (\<lambda>x. x / sum_list v) v"

definition candidates :: "(nat \<Rightarrow> nat \<Rightarrow> real) \<Rightarrow> nat \<Rightarrow> real list \<Rightarrow> nat \<Rightarrow> real list" where
  "candidates tm n v s = map (\<lambda>s'. v ! s' * tm s' s) [0..<n]"

definition forward :: "(nat \<Rightarrow> nat \<Rightarrow> real) \<Rightarrow> nat \<Rightarrow> real list \<Rightarrow> (nat \<Rightarrow> real) \<Rightarrow> real list" where
  "forward tm n v dens = normalise (map (\<lambda>s. sum_list (candidates tm n v s) * dens s) [0..<n])"

text \<open>
  Modelled from the spec: Viterbi decoding is the exact maximum-probability path
  decoding over the full sequence. \<open>viterbi_step\<close> is the dynamic programming step:
  the best score of a path ending in each state. \<open>viterbi_path\<close> decodes the
  observations that follow the scores \<open>v\<close>: the last state is the best-scoring one,
  and every earlier state is the best predecessor of its successor on the path.
\<close>

definition viterbi_step :: "(nat \<Rightarrow> nat \<Rightarrow> real) \<Rightarrow> nat \<Rightarrow> real list \<Rightarrow> (nat \<Rightarrow> real) \<Rightarrow> real list" where
  "viterbi_step tm n v dens =
     map (\<lambda>s. candidates tm n v s ! argmax (candidates tm n v s) * dens s) [0..<n]"

fun viterbi_path :: "(nat \<Rightarrow> nat \<Rightarrow> real) \<Rightarrow> nat \<Rightarrow> real list \<Rightarrow> (nat \<Rightarrow> real) list \<Rightarrow> nat list" where
  "viterbi_path tm n v [] = []"
| "viterbi_path tm n v (dens # rest) =
     (let v1 = viterbi_step tm n v dens
      in case viterbi_path tm n v1 rest of
           [] \<Rightarrow> [argmax v1]
         | s1 # path \<Rightarrow> argmax (candidates tm n v1 s1) # s1 # path)"

text \<open>
  Modelled from the spec: the probability that decoding maximises. \<open>path_product\<close>
  extends the probability \<open>a\<close> of a path that ends in state \<open>s\<close> along the states
  \<open>path\<close>, one transition and one observation per state. \<open>path_score\<close> is the
  probability of a whole path through the observations, entered from the best state of
  the initial scores \<open>v\<close>; \<open>final_scores\<close> are the scores after the last
  observation.
\<close>

fun path_product ::
  "(nat \<Rightarrow> nat \<Rightarrow> real) \<Rightarrow> real \<Rightarrow> nat \<Rightarrow> (nat \<Rightarrow> real) list \<Rightarrow> nat list \<Rightarrow> real"
where
  "path_product tm a s (dens # rest) (s1 # path) =
     path_product tm (a * tm s s1 * dens s1) s1 rest path"
| "path_product tm a s rest path = a"

fun path_score ::
  "(nat \<Rightarrow> nat \<Rightarrow> real) \<Rightarrow> nat \<Rightarrow> real list \<Rightarrow> (nat \<Rightarrow> real) list \<Rightarrow> nat list \<Rightarrow> real"
where
  "path_score tm n v (dens # rest) (s # path) =
     path_product tm (candidates tm n v s ! argmax (candidates tm n v s) * dens s) s rest path"
| "path_score tm n v rest path = 1"

fun final_scores ::
  "(nat \<Rightarrow> nat \<Rightarrow> real) \<Rightarrow> nat \<Rightarrow> real list \<Rightarrow> (nat \<Rightarrow> real) list \<Rightarrow> real list"
where
  "final_scores tm n v [] = v"
| "final_scores tm n v (dens # rest) = final_scores tm n (viterbi_step tm n v dens) rest"

section \<open>DBNBarTrackingProcessor\<close>

text \<open>
  The synchronized features of one call: an array of beats by subdivisions by feature
  dimensions, with no beat or one beat in streaming mode. \<open>activation.any()\<close> is true
  when an entry is not zero.
\<close>

type_synonym activation = "real list list list"

definition any_nonzero :: "activation \<Rightarrow> bool" where
  "any_nonzero a = list_ex (list_ex (list_ex (\<lambda>x. x \<noteq> 0))) a"

text \<open>
  The processor's configuration. The transition model and the initial distribution of
  the hidden Markov model are fields; the observation model \<open>om\<close>, a parameter of the
  functions below, gives the density of each state for the features of one beat. The
  streaming state is the call counter and the forward vector.
\<close>

record dbn_config =
  beats_per_bar :: "nat list"
  transition :: "nat \<Rightarrow> nat \<Rightarrow> real"
  initial :: "real list"
  downbeats :: bool
  return_pattern :: bool
  bump_beat_number :: bool

record dbn_state =
  dbn_counter :: int
  fwd :: "real list"

definition dbn_init :: "dbn_config \<Rightarrow> dbn_state" where
  "dbn_init cfg = \<lparr>dbn_counter = - 1, fwd = initial cfg\<rparr>"

text \<open>
  The record \<open>process_online\<close> emits for the decided state: the beat time, the beat
  number (the position plus one, bumped to the next beat of the bar on request), and
  the pattern on request.
\<close>

definition beat_record :: "dbn_config \<Rightarrow> real option \<Rightarrow> nat \<Rightarrow> real list" where
  "beat_record cfg beat state =
     (let position = state_positions (beats_per_bar cfg) ! state;
          beat_number = int position + 1;
          pattern = state_patterns (beats_per_bar cfg) ! state;
          beat_number1 = (if bump_beat_number cfg
                          then beat_number mod int (beats_per_bar cfg ! pattern) + 1
                          else beat_number)
      in (case beat of None \<Rightarrow> [] | Some t \<Rightarrow> [t]) @ [real_of_int beat_number1]
         @ (if return_pattern cfg then [real pattern] else []))"

text \<open>
  \<open>DBNBarTrackingProcessor.process_online\<close>: the counter grows; when the features
  have a non-zero entry the forward vector is updated and the record of its most
  probable state is emitted, otherwise nothing is emitted.
\<close>

definition dbn_process_online ::
  "dbn_config \<Rightarrow> (activation \<Rightarrow> nat \<Rightarrow> real) \<Rightarrow> dbn_state \<Rightarrow> real option \<times> activation
     \<Rightarrow> error + dbn_state \<times> real list list"
where
  "dbn_process_online cfg om st data =
     (let beat = fst data; activation = snd data;
          st1 = st\<lparr>dbn_counter := dbn_counter st + 1\<rparr>
      in if any_nonzero activation then
           (let fwd1 = forward (transition cfg) (num_states (beats_per_bar cfg)) (fwd st)
                         (om activation)
            in if fwd1 = [] then Inl (ValueError ''attempt to get argmax of an empty sequence'')
               else Inr (st1\<lparr>fwd := fwd1\<rparr>, [beat_record cfg beat (argmax fwd1)]))
         else Inr (st1, []))"

fun dbn_run_online ::
  "dbn_config \<Rightarrow> (activation \<Rightarrow> nat \<Rightarrow> real) \<Rightarrow> dbn_state \<Rightarrow> (real option \<times> activation) list
     \<Rightarrow> error + dbn_state \<times> real list list list"
where
  "dbn_run_online cfg om st [] = Inr (st, [])"
| "dbn_run_online cfg om st (x # xs) =
     (case dbn_process_online cfg om st x of
        Inl e \<Rightarrow> Inl e
      | Inr (st1, out) \<Rightarrow>
          (case dbn_run_online cfg om st1 xs of
             Inl e \<Rightarrow> Inl e
           | Inr (st2, outs) \<Rightarrow> Inr (st2, out # outs)))"

text \<open>
  \<open>DBNBarTrackingProcessor.process_offline\<close>: the Viterbi path, the beat number of
  each of its states, and one more beat number for the last beat; then either the beat
  times with number 1, or each beat row with its number (\<open>zip\<close> stops at the shorter
  of the two).
\<close>

definition offline_path :: "dbn_config \<Rightarrow> (activation \<Rightarrow> nat \<Rightarrow> real) \<Rightarrow> activation \<Rightarrow> nat list" where
  "offline_path cfg om activations =
     viterbi_path (transition cfg) (num_states (beats_per_bar cfg)) (initial cfg)
       (map (\<lambda>x. om [x]) activations)"

definition dbn_process_offline ::
  "dbn_config \<Rightarrow> (activation \<Rightarrow> nat \<Rightarrow> real) \<Rightarrow> real list list \<Rightarrow> activation
     \<Rightarrow> error + real list list"
where
  "dbn_process_offline cfg om beats activations =
     (let path = offline_path cfg om activations;
          position = map (\<lambda>s. state_positions (beats_per_bar cfg) ! s) path;
          beat_numbers = map (\<lambda>k. int k + 1) position
      in if beat_numbers = [] then Inl (IndexError ''index -1 is out of bounds for axis 0 with size 0'')
         else
           (let last_beat_number =
                  last beat_numbers
                    mod int (beats_per_bar cfg ! (state_patterns (beats_per_bar cfg) ! last path)) + 1;
                beat_numbers1 = beat_numbers @ [last_beat_number]
            in if downbeats cfg then
                 (let idx = filter (\<lambda>i. beat_numbers1 ! i = 1) [0..<length beat_numbers1]
                  in if list_ex (\<lambda>i. length beats \<le> i) idx
                     then Inl (IndexError ''index is out of bounds for axis 0'')
                     else Inr (map (\<lambda>i. beats ! i) idx))
               else Inr (map (\<lambda>bk. fst bk @ [real_of_int (snd bk)]) (zip beats beat_numbers1))))"

section \<open>Unambiguous observations\<close>

text \<open>
  An observation strictly prefers a state when the state's density is positive and
  greater than every other state's; it is noiseless when every other state's density
  is zero. A distribution feeds a state when some mass, and no negative mass, moves to
  it in a transition.
\<close>

definition strictly_preferred :: "nat \<Rightarrow> (nat \<Rightarrow> real) \<Rightarrow> nat \<Rightarrow> bool" where
  "strictly_preferred n dens p \<longleftrightarrow>
     p < n \<and> 0 < dens p \<and> list_all (\<lambda>s. 0 \<le> dens s \<and> (s \<noteq> p \<longrightarrow> dens s < dens p)) [0..<n]"

definition noiseless :: "nat \<Rightarrow> (nat \<Rightarrow> real) \<Rightarrow> nat \<Rightarrow> bool" where
  "noiseless n dens p \<longleftrightarrow> p < n \<and> 0 < dens p \<and> list_all (\<lambda>s. s \<noteq> p \<longrightarrow> dens s = 0) [0..<n]"

definition feeds :: "(nat \<Rightarrow> nat \<Rightarrow> real) \<Rightarrow> nat \<Rightarrow> real list \<Rightarrow> nat \<Rightarrow> bool" where
  "feeds tm n v s \<longleftrightarrow>
     list_all (\<lambda>x. 0 \<le> x) (candidates tm n v s) \<and> list_ex (\<lambda>x. 0 < x) (candidates tm n v s)"

text \<open>
  The observations unambiguously favour the state path \<open>p\<close>: each beat's observation
  strictly prefers its state of \<open>p\<close>, and either the transitions are the deterministic
  ones of pattern_change_prob = 0 with a uniform initial distribution and \<open>p\<close> advances
  by them, or the observations are noiseless and \<open>p\<close> is a possible path of the
  transition model, whatever that is.
\<close>

definition unambiguous ::
  "dbn_config \<Rightarrow> (activation \<Rightarrow> nat \<Rightarrow> real) \<Rightarrow> activation \<Rightarrow> nat list \<Rightarrow> bool"
where
  "unambiguous cfg om activations p \<longleftrightarrow>
     (let n = num_states (beats_per_bar cfg); tm = transition cfg
      in list_all2 (\<lambda>x s. strictly_preferred n (om [x]) s) activations p \<and>
         (tm = bar_transition (beats_per_bar cfg) \<and>
          initial cfg = replicate n (1 / real n) \<and>
          successively (\<lambda>s s1. s1 = next_state (beats_per_bar cfg) s) p
          \<or>
          list_all2 (\<lambda>x s. noiseless n (om [x]) s) activations p \<and>
          (p \<noteq> [] \<longrightarrow> feeds tm n (initial cfg) (hd p)) \<and>
          successively (\<lambda>s s1. 0 < tm s s1) p))"

subsection \<open>Notions of the proofs\<close>

text \<open>
  A transition model is deterministic when every state has one successor that takes
  all its mass, and no two states share a successor. A vector is dominant at a state
  that holds its greatest, positive entry, strictly dominant when no other entry is
  as great, and peaked when every other entry is zero. A path follows the successor
  function from a state before it.
\<close>

definition deterministic :: "(nat \<Rightarrow> nat \<Rightarrow> real) \<Rightarrow> nat \<Rightarrow> (nat \<Rightarrow> nat) \<Rightarrow> bool" where
  "deterministic tm n succ \<longleftrightarrow>
     (\<forall>s<n. succ s < n) \<and> inj_on succ {..<n} \<and>
     (\<forall>s'<n. \<forall>s<n. tm s' s = (if s = succ s' then 1 else 0))"

definition dominant :: "nat \<Rightarrow> real list \<Rightarrow> nat \<Rightarrow> bool" where
  "dominant n v q \<longleftrightarrow> length v = n \<and> q < n \<and> 0 < v ! q \<and> (\<forall>s<n. 0 \<le> v ! s \<and> v ! s \<le> v ! q)"

definition strictly_dominant :: "nat \<Rightarrow> real list \<Rightarrow> nat \<Rightarrow> bool" where
  "strictly_dominant n v q \<longleftrightarrow>
     length v = n \<and> q < n \<and> 0 < v ! q \<and> (\<forall>s<n. 0 \<le> v ! s) \<and> (\<forall>s<n. s \<noteq> q \<longrightarrow> v ! s < v ! q)"

definition peaked :: "nat \<Rightarrow> real list \<Rightarrow> nat \<Rightarrow> bool" where
  "peaked n v q \<longleftrightarrow> length v = n \<and> q < n \<and> 0 < v ! q \<and> (\<forall>s<n. s \<noteq> q \<longrightarrow> v ! s = 0)"

fun follows :: "(nat \<Rightarrow> nat) \<Rightarrow> nat \<Rightarrow> nat list \<Rightarrow> bool" where
  "follows succ q [] = True"
| "follows succ q (s # p) = (s = succ q \<and> follows succ s p)"

text \<open>
  In the examples a mixture model is given by its log-density function, and \<open>score\<close>
  applies it.
\<close>

definition apply_score :: "(real list \<Rightarrow> real) \<Rightarrow> real list \<Rightarrow> real" where
  "apply_score g x = g x"

text \<open>
  In the examples of the bar tracker the observation model reads the state off the
  features: the features of one beat are a single number, and the state with that
  index gets the density 9/10, every other state 1/30.
\<close>

definition coded_om :: "activation \<Rightarrow> nat \<Rightarrow> real" where
  "coded_om a s = (if a = [[[real s]]] then 9 / 10 else 1 / 30)"

section \<open>Properties\<close>

text \<open>
  C8, at a rank-2 input: an array of shape (2, 3) is not rank-3, and the call does not
  end in a shape error that describes the input. Formatting the message with the
  shape tuple as the argument list of \<open>%\<close> raises TypeError before the ValueError is
  built.
\<close>

theorem log_densities_rank2_TypeError:
  "log_densities score gmms \<lparr>shape = [2, 3], entries = [0, 0, 0, 0, 0, 0]\<rparr>
     = Inl (TypeError ''not all arguments converted during string formatting'')"
  by (simp add: log_densities_def ndim_def format_one_def)

lemma add_scores_ok:
  "bd0 + length gs \<le> shape obs ! 1 \<Longrightarrow> length col = shape obs ! 0 \<Longrightarrow>
   add_scores score obs gs bd0 col =
     Inr (map (\<lambda>b. col ! b + (\<Sum>i<length gs. score (gs ! i) (feature_vector obs b (bd0 + i))))
            [0..<shape obs ! 0])"
proof (induction gs arbitrary: bd0 col)
  case Nil
  then show ?case by (simp add: list_eq_iff_nth_eq)
next
  case (Cons g gs)
  let ?n = "shape obs ! 0"
  let ?X = "map (\<lambda>b. feature_vector obs b bd0) [0..<?n]"
  let ?col = "map2 (+) col (map (score g) ?X)"
  have bd: "bd0 < shape obs ! 1" using Cons.prems by simp
  have len: "length ?col = ?n" using Cons.prems by simp
  have step: "add_scores score obs (g # gs) bd0 col = add_scores score obs gs (Suc bd0) ?col"
    using bd by (simp add: subdivision_rows_def)
  have "Suc bd0 + length gs \<le> shape obs ! 1" using Cons.prems by simp
  from Cons.IH [OF this len]
  have "add_scores score obs gs (Suc bd0) ?col =
     Inr (map (\<lambda>b. ?col ! b + (\<Sum>i<length gs. score (gs ! i) (feature_vector obs b (Suc bd0 + i))))
            [0..<?n])" .
  moreover have "\<And>b. b < ?n \<Longrightarrow>
     ?col ! b + (\<Sum>i<length gs. score (gs ! i) (feature_vector obs b (Suc bd0 + i)))
       = col ! b + (\<Sum>i<length (g # gs). score ((g # gs) ! i) (feature_vector obs b (bd0 + i)))"
    using Cons.prems by (simp add: sum.lessThan_Suc_shift del: sum.lessThan_Suc)
  ultimately show ?case using step by simp
qed

lemma density_columns_ok:
  "\<forall>gs \<in> set gss. length gs \<le> shape obs ! 1 \<Longrightarrow>
   density_columns score obs gss =
     Inr (map (\<lambda>gs. map (\<lambda>b. \<Sum>i<length gs. score (gs ! i) (feature_vector obs b i))
                      [0..<shape obs ! 0]) gss)"
  by (induction gss) (simp_all add: add_scores_ok)

lemma concat_nth_offset:
  "p < length xss \<Longrightarrow> k < length (xss ! p) \<Longrightarrow>
   k + (\<Sum>q<p. length (xss ! q)) < length (concat xss) \<and>
   concat xss ! (k + (\<Sum>q<p. length (xss ! q))) = xss ! p ! k"
proof (induction xss arbitrary: p)
  case Nil
  then show ?case by simp
next
  case (Cons xs xss)
  show ?case
  proof (cases p)
    case 0
    with Cons.prems show ?thesis by (simp add: nth_append)
  next
    case (Suc p')
    with Cons.prems have "p' < length xss" "k < length (xss ! p')" by simp_all
    from Cons.IH [OF this] Suc show ?thesis
      by (simp add: sum.lessThan_Suc_shift nth_append del: sum.lessThan_Suc)
  qed
qed

lemma length_assign_pointers [simp]:
  "length (assign_pointers pattern position gs p off ptrs) = length ptrs"
  by (induction gs arbitrary: p off ptrs) simp_all

lemma assign_pointers_nth:
  "s < length ptrs \<Longrightarrow>
   assign_pointers pattern position gs p off ptrs ! s =
     (if p \<le> pattern ! s \<and> pattern ! s < p + length gs
      then position ! s + off + (\<Sum>q<pattern ! s - p. length (gs ! q))
      else ptrs ! s)"
proof (induction gs arbitrary: p off ptrs)
  case Nil
  then show ?case by simp
next
  case (Cons g gs)
  let ?ptrs = "map (\<lambda>s. if pattern ! s = p then position ! s + off else ptrs ! s)
                 [0..<length ptrs]"
  have len: "s < length ?ptrs" using Cons.prems by simp
  have here: "?ptrs ! s = (if pattern ! s = p then position ! s + off else ptrs ! s)"
    using Cons.prems by simp
  show ?case
  proof (cases "pattern ! s = p")
    case True
    then show ?thesis using Cons.IH [OF len, of "Suc p" "off + length g"] here by simp
  next
    case False
    show ?thesis
    proof (cases "Suc p \<le> pattern ! s \<and> pattern ! s < Suc p + length gs")
      case True
      then obtain j where j: "pattern ! s - p = Suc j" "pattern ! s - Suc p = j"
        by (metis Suc_diff_le diff_Suc_Suc)
      from True show ?thesis
        using Cons.IH [OF len, of "Suc p" "off + length g"] j
        by (simp add: sum.lessThan_Suc_shift del: sum.lessThan_Suc)
    next
      case F2: False
      with False have n1: "\<not> (p \<le> pattern ! s \<and> pattern ! s < p + length (g # gs))"
        by auto
      have "assign_pointers pattern position (g # gs) p off ptrs ! s =
              assign_pointers pattern position gs (Suc p) (off + length g) ?ptrs ! s"
        by simp
      also have "\<dots> = ?ptrs ! s"
        using Cons.IH [OF len, of "Suc p" "off + length g"] F2 by presburger
      also have "\<dots> = ptrs ! s" using here False by simp
      finally show ?thesis using n1 by presburger
    qed
  qed
qed

lemma pointers_nth:
  "s < num_states bpb \<Longrightarrow> state_patterns bpb ! s < length gmms \<Longrightarrow>
   pointers bpb gmms ! s =
     state_positions bpb ! s + (\<Sum>q<state_patterns bpb ! s. length (gmms ! q))"
  by (simp add: pointers_def assign_pointers_nth)

lemma log_densities_ok:
  assumes "ndim obs = 3"
    and "\<forall>gs \<in> set (concat gmms). length gs \<le> shape obs ! 1"
  shows "log_densities score gmms obs =
     Inr (map (\<lambda>b. map (\<lambda>gs. \<Sum>bd<length gs. score (gs ! bd) (feature_vector obs b bd))
                     (concat gmms)) [0..<shape obs ! 0])"
  using assms by (simp add: log_densities_def density_columns_ok comp_def)

text \<open>
  C3, as the code has it: for a rank-3 observation array whose subdivision axis is at
  least as long as every position's list of mixture models, \<open>log_densities\<close> returns
  a table \<open>M\<close>; the pointer of the state with pattern \<open>p\<close> and position \<open>k\<close> is \<open>k\<close>
  plus the number of positions the patterns before \<open>p\<close> have models for; and the entry
  of \<open>M\<close> for beat \<open>b\<close> in that column is the sum, over the division models
  \<open>gmms[p][k][bd]\<close>, of the model's score on beat \<open>b\<close>'s subdivision-\<open>bd\<close> feature
  vector.
\<close>

theorem log_densities_state_sum:
  assumes "ndim obs = 3"
    and "list_all (\<lambda>gs. length gs \<le> shape obs ! 1) (concat gmms)"
    and "b < shape obs ! 0"
    and "s < num_states bpb"
    and "state_patterns bpb ! s = p" and "state_positions bpb ! s = k"
    and "p < length gmms" and "k < length (gmms ! p)"
  shows "\<exists>M. log_densities score gmms obs = Inr M \<and>
           pointers bpb gmms ! s = k + (\<Sum>q<p. length (gmms ! q)) \<and>
           M ! b ! (pointers bpb gmms ! s) =
             (\<Sum>bd<length (gmms ! p ! k). score (gmms ! p ! k ! bd) (feature_vector obs b bd))"
proof -
  let ?c = "k + (\<Sum>q<p. length (gmms ! q))"
  have fit: "\<forall>gs \<in> set (concat gmms). length gs \<le> shape obs ! 1"
    using assms(2) by (simp add: list_all_iff)
  have ptr: "pointers bpb gmms ! s = ?c"
    using assms by (simp add: pointers_nth)
  have c: "?c < length (concat gmms)" "concat gmms ! ?c = gmms ! p ! k"
    using concat_nth_offset [of p gmms k] assms by simp_all
  show ?thesis
    using log_densities_ok [OF assms(1) fit, of score] ptr c assms(3) by simp
qed

text \<open>
  The theorem at two patterns with one beat per bar each, the second with two division
  models, at the state of the second pattern: its column is 1, and its entry sums both
  subdivisions.
\<close>

theorem log_densities_state_sum_witness:
  "ndim \<lparr>shape = [1, 2, 1], entries = [3, 4]\<rparr> = 3 \<and>
   list_all (\<lambda>gs. length gs \<le> shape \<lparr>shape = [1, 2, 1], entries = [3, 4]\<rparr> ! 1)
     (concat [[[sum_list]], [[sum_list, sum_list]]]) \<and>
   (1::nat) < num_states [1, 1] \<and>
   state_patterns [1, 1] ! 1 = 1 \<and> state_positions [1, 1] ! 1 = 0 \<and>
   (\<exists>M. log_densities apply_score [[[sum_list]], [[sum_list, sum_list]]]
          \<lparr>shape = [1, 2, 1], entries = [3, 4]\<rparr> = Inr M \<and>
        pointers [1, 1] [[[sum_list :: real list \<Rightarrow> real]], [[sum_list, sum_list]]] ! 1 = 1 \<and>
        M ! 0 ! 1 = 7)"
  using log_densities_state_sum [of "\<lparr>shape = [1, 2, 1], entries = [3, 4]\<rparr>"
      "[[[sum_list]], [[sum_list, sum_list]]]" 0 1 "[1, 1]" 1 0 apply_score]
  by (auto simp add: ndim_def num_states_def state_patterns_def state_positions_def
      feature_vector_def apply_score_def enumerate_eq_zip)

text \<open>
  C3 as stated fails on a rank-3 array with fewer subdivisions than a position has
  division models: one subdivision against two models raises IndexError, and no
  log-likelihood is computed.
\<close>

theorem log_densities_short_axis_IndexError:
  "ndim \<lparr>shape = [1, 1, 1], entries = [3]\<rparr> = 3 \<and>
   log_densities apply_score [[[sum_list, sum_list]]] \<lparr>shape = [1, 1, 1], entries = [3]\<rparr>
     = Inl (IndexError ''index out of bounds for axis 1'')"
  by (simp add: log_densities_def ndim_def subdivision_rows_def)




lemma length_subdivision_frames [simp]:
  "length (subdivision_frames cfg L) = beat_subdivisions cfg"
  by (simp add: subdivision_frames_def diff_def linspace_def)




text \<open>
  Before the subdivision lengths are set (up to the second beat) \<open>process_online\<close>
  passes on no beat, emits nothing and leaves the buffer as it is.
\<close>

lemma process_online_before_normal:
  assumes "div_frames st = None" and "process_online cfg st x = Inr (st', out)"
  shows "beat_features st' = beat_features st" and "snd out = []" and "fst out = None"
  using assms by (auto simp: process_online_def Let_def split: option.splits if_splits)

lemma add_frame_keeps:
  assumes "add_frame cfg dfs st feature = Inr st1"
  shows "last_beat st1 = last_beat st" and "div_frames st1 = div_frames st"
    and "length (beat_features st1) = length (beat_features st)"
    and "\<not> (is_end_div dfs st \<and> r = current_div st) \<Longrightarrow>
           beat_features st1 ! r = beat_features st ! r"
  using assms by (auto simp: add_frame_def Let_def split: if_splits)

lemma process_online_no_beat:
  assumes "last_beat st = Some lb" and "div_frames st = Some dfs" and "\<not> any_beat (fst x)"
    and "process_online cfg st x = Inr (st1, out)"
  shows "add_frame cfg dfs st (snd x) = Inr st1" and "snd out = []"
  using assms by (auto simp: process_online_def Let_def split: sum.splits)

lemma process_online_at_beat:
  assumes "last_beat st = Some lb" and "div_frames st = Some dfs" and "any_beat (fst x)"
    and "process_online cfg st x = Inr (st2, out)"
  shows "\<exists>st1. add_frame cfg dfs st (snd x) = Inr st1 \<and> snd out = [beat_features st1] \<and>
           beat_features st2 = zeros (beat_subdivisions cfg) (feat_dim cfg)"
  using assms
  by (auto simp: process_online_def new_beat_def Let_def split: sum.splits if_splits)

lemma unstored_rows_kept:
  assumes "last_beat st = Some lb" and "div_frames st = Some dfs"
    and "list_all (\<lambda>x. \<not> any_beat (fst x)) xs" and "any_beat beat"
    and "run_online cfg st (xs @ [(beat, feature)]) = Inr (st', outs)"
  shows "\<exists>F. snd (last outs) = [F] \<and> length F = length (beat_features st) \<and>
           (\<forall>r. r \<notin> set (stored_rows cfg st (xs @ [(beat, feature)])) \<longrightarrow>
                F ! r = beat_features st ! r) \<and>
           beat_features st' = zeros (beat_subdivisions cfg) (feat_dim cfg)"
  using assms
proof (induction xs arbitrary: st outs)
  case Nil
  from Nil.prems(5) obtain out where
    po: "process_online cfg st (beat, feature) = Inr (st', out)" and outs: "outs = [out]"
    by (auto split: sum.splits)
  from process_online_at_beat [OF Nil.prems(1,2) _ po] Nil.prems(4)
  obtain st1 where st1: "add_frame cfg dfs st feature = Inr st1"
    "snd out = [beat_features st1]"
    "beat_features st' = zeros (beat_subdivisions cfg) (feat_dim cfg)"
    by auto
  have "\<forall>r. r \<notin> set (stored_rows cfg st ([] @ [(beat, feature)])) \<longrightarrow>
              beat_features st1 ! r = beat_features st ! r"
    using add_frame_keeps(4) [OF st1(1)] po Nil.prems(1,2) by auto
  then show ?case using st1 outs add_frame_keeps(3) [OF st1(1)] by simp
next
  case (Cons x xs)
  from Cons.prems(5) obtain st1 out outs1 where
    po: "process_online cfg st x = Inr (st1, out)"
    and rest: "run_online cfg st1 (xs @ [(beat, feature)]) = Inr (st', outs1)"
    and outs: "outs = out # outs1"
    by (auto split: sum.splits)
  have nb: "\<not> any_beat (fst x)" and all: "list_all (\<lambda>x. \<not> any_beat (fst x)) xs"
    using Cons.prems(3) by simp_all
  have af: "add_frame cfg dfs st (snd x) = Inr st1"
    by (rule process_online_no_beat(1) [OF Cons.prems(1,2) nb po])
  have keep: "last_beat st1 = Some lb" "div_frames st1 = Some dfs"
    using add_frame_keeps(1,2) [OF af] Cons.prems(1,2) by simp_all
  from Cons.IH [OF keep all Cons.prems(4) rest]
  obtain F where F: "snd (last outs1) = [F]" "length F = length (beat_features st1)"
    "\<forall>r. r \<notin> set (stored_rows cfg st1 (xs @ [(beat, feature)])) \<longrightarrow>
         F ! r = beat_features st1 ! r"
    "beat_features st' = zeros (beat_subdivisions cfg) (feat_dim cfg)"
    by blast
  have ne: "outs1 \<noteq> []" using F(1) rest by (cases xs) (auto split: sum.splits)
  have "F ! r = beat_features st ! r"
    if "r \<notin> set (stored_rows cfg st ((x # xs) @ [(beat, feature)]))" for r
  proof -
    from that po Cons.prems(1,2)
    have 1: "\<not> (is_end_div dfs st \<and> r = current_div st)"
      and 2: "r \<notin> set (stored_rows cfg st1 (xs @ [(beat, feature)]))"
      by (auto split: if_splits)
    show ?thesis using F(3) 2 add_frame_keeps(4) [OF af 1] by simp
  qed
  then show ?case using F ne outs add_frame_keeps(3) [OF af] by simp
qed

text \<open>
  C9: take a state of the normal action whose buffer is all zeros, as it is when the
  subdivision lengths are first set and after every emitted beat, and a stream of
  frames without a beat followed by a frame with a beat. The feature matrix emitted at
  that beat has one row per subdivision; every subdivision whose mean was not stored
  while the stream was processed is emitted as a row of zeros; and the buffer is all
  zeros again afterwards.
\<close>

theorem unstored_subdivisions_zero:
  assumes "last_beat st = Some lb" and "div_frames st = Some dfs"
    and "beat_features st = zeros (beat_subdivisions cfg) (feat_dim cfg)"
    and "list_all (\<lambda>x. \<not> any_beat (fst x)) xs" and "any_beat beat"
    and "run_online cfg st (xs @ [(beat, feature)]) = Inr (st', outs)"
  shows "\<exists>F. snd (last outs) = [F] \<and> length F = beat_subdivisions cfg \<and>
           (\<forall>r. r < beat_subdivisions cfg \<longrightarrow>
                r \<notin> set (stored_rows cfg st (xs @ [(beat, feature)])) \<longrightarrow>
                F ! r = replicate (feat_dim cfg) 0) \<and>
           beat_features st' = zeros (beat_subdivisions cfg) (feat_dim cfg)"
proof -
  from unstored_rows_kept [OF assms(1,2,4,5,6)]
  obtain F where F: "snd (last outs) = [F]" "length F = length (beat_features st)"
    "\<forall>r. r \<notin> set (stored_rows cfg st (xs @ [(beat, feature)])) \<longrightarrow>
         F ! r = beat_features st ! r"
    "beat_features st' = zeros (beat_subdivisions cfg) (feat_dim cfg)"
    by blast
  show ?thesis using F assms(3) by (auto simp: zeros_def)
qed

text \<open>
  The theorem on a beat interval of five frames of which four arrive: the last
  subdivision's mean is never stored, and its row is emitted as zero.
\<close>

theorem unstored_subdivisions_zero_witness:
  "last_beat \<lparr>feat_sum = [0], counter = 0, current_div = 0, div_frames = Some [1, 1, 2, 1],
       last_beat = Some (21 / 20), beat_features = [[0], [0], [0], [0]]\<rparr> = Some (21 / 20) \<and>
   zeros 4 1 = [[0], [0], [0], [0]] \<and>
   list_all (\<lambda>x. \<not> any_beat (fst x)) [(None, 1), (None, 2), (None, 4 :: real)] \<and>
   any_beat (Some (11 / 10)) \<and>
   run_online \<lparr>beat_subdivisions = 4, feat_dim = 1, fps = 100\<rparr>
     \<lparr>feat_sum = [0], counter = 0, current_div = 0, div_frames = Some [1, 1, 2, 1],
       last_beat = Some (21 / 20), beat_features = [[0], [0], [0], [0]]\<rparr>
     ([(None, 1), (None, 2), (None, 4)] @ [(Some (11 / 10), 9)])
   = Inr (\<lparr>feat_sum = [0], counter = 2, current_div = 0, div_frames = Some [1, 1, 2, 1],
            last_beat = Some (11 / 10), beat_features = [[0], [0], [0], [0]]\<rparr>,
          [(None, []), (None, []), (None, []), (Some (11 / 10), [[[1], [2], [13 / 2], [0]]])]) \<and>
   stored_rows \<lparr>beat_subdivisions = 4, feat_dim = 1, fps = 100\<rparr>
     \<lparr>feat_sum = [0], counter = 0, current_div = 0, div_frames = Some [1, 1, 2, 1],
       last_beat = Some (21 / 20), beat_features = [[0], [0], [0], [0]]\<rparr>
     ([(None, 1), (None, 2), (None, 4)] @ [(Some (11 / 10), 9)]) = [0, 1, 2] \<and>
   [[1], [2], [13 / 2], [0 :: real]] ! 3 = replicate 1 0"
proof -
  let ?cfg = "\<lparr>beat_subdivisions = 4, feat_dim = 1, fps = 100\<rparr>"
  let ?st = "\<lparr>feat_sum = [0], counter = 0, current_div = 0, div_frames = Some [1, 1, 2, 1],
       last_beat = Some (21 / 20), beat_features = [[0], [0], [0], [0]]\<rparr>"
  let ?st' = "\<lparr>feat_sum = [0], counter = 2, current_div = 0, div_frames = Some [1, 1, 2, 1],
            last_beat = Some (11 / 10), beat_features = [[0], [0], [0], [0]]\<rparr>"
  let ?outs = "[(None, []), (None, []), (None, []), (Some (11 / 10), [[[1], [2], [13 / 2], [0::real]]])]"
  have sf: "subdivision_frames \<lparr>beat_subdivisions = 4, feat_dim = d, fps = 100\<rparr> (1 / 20) = [1, 1, 2, 1]" for d
    by (simp add: subdivision_frames_def linspace_def diff_def round_half_even_def upt_rec)
  have z: "zeros 4 1 = [[0], [0], [0], [0]]" "zeros 4 (Suc 0) = [[0], [0], [0], [0]]"
    by (simp_all add: zeros_def numeral_eq_Suc)
  have run: "run_online ?cfg ?st ([(None, 1), (None, 2), (None, 4)] @ [(Some (11 / 10), 9)])
      = Inr (?st', ?outs)"
    by (simp add: process_online_def add_frame_def new_beat_def is_end_div_def any_beat_def
        offset_def Let_def sf z)
  have st: "stored_rows ?cfg ?st ([(None, 1), (None, 2), (None, 4)] @ [(Some (11 / 10), 9)]) = [0, 1, 2]"
    by (simp add: process_online_def add_frame_def new_beat_def is_end_div_def any_beat_def
        offset_def Let_def sf z)
  have nb: "list_all (\<lambda>x. \<not> any_beat (fst x)) [(None, 1), (None, 2), (None, 4 :: real)]"
    by (simp add: any_beat_def)
  have ab: "any_beat (Some (11 / 10))" by (simp add: any_beat_def)
  from unstored_subdivisions_zero [of ?st "21 / 20" "[1, 1, 2, 1]" ?cfg, OF _ _ _ nb ab run]
  have "[[1], [2], [13 / 2], [0 :: real]] ! 3 = replicate 1 0"
    using z st by simp
  then show ?thesis using run st z nb ab by simp
qed






lemma sequence_Inl:
  "Inl e \<in> set rs \<Longrightarrow> \<exists>e'. sequence rs = Inl e'"
  by (induction rs) (auto split: sum.splits)












text \<open>
  C6 as stated fails on features with no column: the loop over the feature dimensions
  never runs, so \<open>np.interp\<close> is never called. With two beats within the first
  frame and three feature frames of zero columns, the only beat interval spans no
  frame, every subdivision bin is empty, and \<open>process_offline\<close> returns normally,
  with a feature matrix of four empty rows for that beat.
\<close>

theorem process_offline_no_columns:
  "feature_dim (Matrix 0 [[], [], []]) = 0 \<and>
   offline_beat_frames \<lparr>beat_subdivisions = 4, feat_dim = 1, fps = 100\<rparr>
     [(1 / 1000, []), (2 / 1000, [])] (Matrix 0 [[], [], []]) = [(0, 0)] \<and>
   subdivision_bins \<lparr>beat_subdivisions = 4, feat_dim = 1, fps = 100\<rparr>
     (feature_rows (Matrix 0 [[], [], []])) 0 0 = [[], [], [], []] \<and>
   process_offline \<lparr>beat_subdivisions = 4, feat_dim = 1, fps = 100\<rparr>
     [(1 / 1000, []), (2 / 1000, [])] (Matrix 0 [[], [], []])
   = Inr ([(1 / 1000, []), (2 / 1000, [])], [[[], [], [], []]], [])"
proof -
  let ?cfg = "\<lparr>beat_subdivisions = 4, feat_dim = 1, fps = 100\<rparr>"
  let ?beats = "[(1 / 1000, []), (2 / 1000, [])] :: beat_row list"
  let ?f = "Matrix 0 [[], [], []]"
  have d: "feature_dim ?f = 0" by (simp add: feature_dim_def)
  have tb: "trim_beats ?cfg (len_features ?f) ?beats 0 = Inr (?beats, 0)"
    by (simp add: trim_beats.simps len_features_def)
  have fr: "offline_beat_frames ?cfg ?beats ?f = [(0, 0)]"
    unfolding offline_beat_frames_def tb by (simp add: first_beat_frame_def)
  have bins: "subdivision_bins \<lparr>beat_subdivisions = 4, feat_dim = k, fps = 100\<rparr>
                [[], [], []] 0 0 = [[], [], [], []]" for k
    by (simp add: subdivision_bins_def linspace_def numeral_eq_Suc)
  have im: "interpolate_missing 4 [[], [], [], []] 0 = Inr [[], [], [], []]"
    by (simp add: interpolate_missing_def)
  have po: "process_offline ?cfg ?beats ?f = Inr (?beats, [[[], [], [], []]], [])"
    unfolding process_offline_def tb
    by (simp add: first_beat_frame_def feature_dim_def feature_rows_def next_beat_frame_def
        sync_beat_def py_slice_def bins im column_means_def feature_warnings_def)
  have "subdivision_bins ?cfg (feature_rows ?f) 0 0 = [[], [], [], []]"
    by (simp add: feature_rows_def bins)
  with d fr po show ?thesis by simp
qed

text \<open>
  C7, where every beat lies after the end of the features: one beat at 5 s and one
  second of features. The loop drops the beat and then reads the last beat of an empty
  array, which raises IndexError instead of completing on no beats.
\<close>

theorem process_offline_all_beats_late:
  "process_offline \<lparr>beat_subdivisions = 4, feat_dim = 1, fps = 100\<rparr>
     [(5, [])] (Matrix 1 (replicate 100 [0]))
   = Inl (IndexError ''index -1 is out of bounds for axis 0 with size 0'')"
  by (simp add: process_offline_def trim_beats.simps len_features_def)

text \<open>
  The trimming loop when some beat is not after the end of the features: it keeps a
  non-empty prefix of the beats and warns once for every beat it drops.
\<close>

lemma trim_beats_kept:
  assumes "fps cfg \<noteq> 0" and "\<exists>b \<in> set beats. fst b \<le> real len / fps cfg"
  shows "\<exists>k. 0 < k \<and> k \<le> length beats \<and>
           trim_beats cfg len beats w = Inr (take k beats, w + (length beats - k))"
  using assms
proof (induction cfg len beats w rule: trim_beats.induct)
  case (1 cfg len beats w)
  have ne: "beats \<noteq> []" using "1.prems"(2) by auto
  show ?case
  proof (cases "real len / fps cfg < fst (last beats)")
    case False
    then have "trim_beats cfg len beats w = Inr (beats, w)"
      using ne "1.prems"(1) by (simp add: trim_beats.simps)
    then show ?thesis using ne by (intro exI [of _ "length beats"]) simp
  next
    case True
    from "1.prems"(2) obtain b where b: "b \<in> set beats" "fst b \<le> real len / fps cfg" by blast
    with True have "b \<noteq> last beats" by auto
    with b(1) ne have "b \<in> set (butlast beats)"
      by (metis append_butlast_last_id insert_iff list.set(2) rotate1.simps(2) set_rotate1)
    with b(2) have ex: "\<exists>b \<in> set (butlast beats). fst b \<le> real len / fps cfg" by blast
    from "1.IH" [OF "1.prems"(1) ne True "1.prems"(1) ex]
    obtain k where k: "0 < k" "k \<le> length (butlast beats)"
      "trim_beats cfg len (butlast beats) (Suc w)
         = Inr (take k (butlast beats), Suc w + (length (butlast beats) - k))"
      by blast
    have kl: "k < length beats" using k(2) ne by (cases "length beats") auto
    then have tk: "take k (butlast beats) = take k beats" by (rule take_butlast)
    have w: "Suc w + (length (butlast beats) - k) = w + (length beats - k)"
      unfolding length_butlast using kl by arith
    have "trim_beats cfg len beats w = trim_beats cfg len (butlast beats) (Suc w)"
      using True ne "1.prems"(1) by (subst trim_beats.simps) simp
    also have "\<dots> = Inr (take k beats, w + (length beats - k))"
      unfolding k(3) tk w ..
    finally show ?thesis using k(1) kl by (intro exI [of _ k]) simp
  qed
qed

lemma next_state_less: "s < sum_list bs \<Longrightarrow> next_state bs s < sum_list bs"
proof (induction bs arbitrary: s)
  case (Cons B bs)
  show ?case
  proof (cases "s < B")
    case True
    then have "Suc s mod B < B" by simp
    then have "Suc s mod B < B + sum_list bs" by linarith
    with True show ?thesis by simp
  next
    case False
    with Cons.prems have "s - B < sum_list bs" by simp
    from Cons.IH [OF this] False show ?thesis by simp
  qed
qed simp

lemma next_state_ge: "sum_list bs \<le> s \<Longrightarrow> next_state bs s = s"
  by (induction bs arbitrary: s) auto

lemma next_state_inj: "s < sum_list bs \<Longrightarrow> t < sum_list bs \<Longrightarrow>
    next_state bs s = next_state bs t \<Longrightarrow> s = t"
proof (induction bs arbitrary: s t)
  case (Cons B bs)
  show ?case
  proof (cases "s < B")
    case sB: True
    show ?thesis
    proof (cases "t < B")
      case True
      with sB Cons.prems(3) have "Suc s mod B = Suc t mod B" by simp
      then show ?thesis using sB True
        by (metis Suc_lessI mod_less mod_self nat.inject nat.distinct(1))
    next
      case False
      with sB Cons.prems(3) have "(s + 1) mod B = B + next_state bs (t - B)" by simp
      moreover have "(s + 1) mod B < B" using sB by simp
      ultimately show ?thesis by simp
    qed
  next
    case sB: False
    show ?thesis
    proof (cases "t < B")
      case True
      with sB Cons.prems(3) have "(t + 1) mod B = B + next_state bs (s - B)" by simp
      moreover have "(t + 1) mod B < B" using True by simp
      ultimately show ?thesis by simp
    next
      case False
      with sB Cons.prems have "next_state bs (s - B) = next_state bs (t - B)"
        "s - B < sum_list bs" "t - B < sum_list bs" by auto
      with Cons.IH have "s - B = t - B" by blast
      with sB False show ?thesis by simp
    qed
  qed
qed simp

lemma argmax_less: "xs \<noteq> [] \<Longrightarrow> argmax xs < length xs"
proof (induction xs)
  case (Cons x xs)
  show ?case
  proof (cases "list_all (\<lambda>y. y \<le> x) xs")
    case False
    then have "xs \<noteq> []" by auto
    with Cons.IH False show ?thesis by simp
  qed simp
qed simp

lemma argmax_ge: "i < length xs \<Longrightarrow> xs ! i \<le> xs ! argmax xs"
proof (induction xs arbitrary: i)
  case (Cons x xs)
  show ?case
  proof (cases "list_all (\<lambda>y. y \<le> x) xs")
    case True
    then show ?thesis using Cons.prems by (cases i) (auto simp: list_all_length)
  next
    case False
    then obtain j where j: "j < length xs" "x < xs ! j"
      by (auto simp: list_all_length not_le)
    have "x \<le> xs ! argmax xs" using Cons.IH [OF j(1)] j(2) by simp
    then show ?thesis using False Cons.IH Cons.prems by (cases i) auto
  qed
qed simp

lemma argmax_unique:
  "i < length xs \<Longrightarrow> (\<forall>j<length xs. j \<noteq> i \<longrightarrow> xs ! j < xs ! i) \<Longrightarrow> argmax xs = i"
proof -
  assume i: "i < length xs" and u: "\<forall>j<length xs. j \<noteq> i \<longrightarrow> xs ! j < xs ! i"
  then have "xs \<noteq> []" by auto
  then have "argmax xs < length xs" by (rule argmax_less)
  moreover have "xs ! i \<le> xs ! argmax xs" using i by (rule argmax_ge)
  ultimately show ?thesis using u by (metis not_le)
qed

lemma deterministic_surj:
  assumes "deterministic tm n succ" and "s < n"
  shows "\<exists>s'<n. succ s' = s"
proof -
  have "succ ` {..<n} \<subseteq> {..<n}" using assms(1) by (auto simp: deterministic_def)
  moreover have "card (succ ` {..<n}) = card {..<n}"
    using assms(1) by (simp add: deterministic_def card_image)
  ultimately have "succ ` {..<n} = {..<n}" by (simp add: card_subset_eq)
  with assms(2) show ?thesis by (metis imageE lessThan_iff)
qed

lemma candidates_deterministic:
  assumes "deterministic tm n succ" and "s' < n"
  shows "candidates tm n v (succ s') = map (\<lambda>i. if i = s' then v ! s' else 0) [0..<n]"
proof -
  have "v ! i * tm i (succ s') = (if i = s' then v ! s' else 0)" if "i < n" for i
  proof -
    have "succ s' < n" using assms by (simp add: deterministic_def)
    then have "tm i (succ s') = (if succ s' = succ i then 1 else 0)"
      using assms(1) that by (simp add: deterministic_def)
    moreover have "succ s' = succ i \<longleftrightarrow> i = s'"
      using assms that by (auto simp: deterministic_def inj_on_def)
    ultimately show ?thesis by simp
  qed
  then show ?thesis by (simp add: candidates_def)
qed

lemma sum_list_single:
  "s' < n \<Longrightarrow> sum_list (map (\<lambda>i. if i = s' then a else 0) [0..<n]) = (a :: real)"
  by (simp add: sum_list_distinct_conv_sum_set)

lemma candidates_sum:
  assumes "deterministic tm n succ" and "s' < n"
  shows "sum_list (candidates tm n v (succ s')) = v ! s'"
  by (simp add: candidates_deterministic [OF assms] sum_list_single [OF assms(2)])

lemma candidates_max:
  assumes "deterministic tm n succ" and "s' < n" and "0 \<le> v ! s'"
  shows "candidates tm n v (succ s') ! argmax (candidates tm n v (succ s')) = v ! s'"
proof -
  let ?c = "candidates tm n v (succ s')"
  have c: "?c = map (\<lambda>i. if i = s' then v ! s' else 0) [0..<n]"
    by (rule candidates_deterministic [OF assms(1,2)])
  have len: "length ?c = n" by (simp add: candidates_def)
  have "?c \<noteq> []" using len assms(2) by auto
  then have a: "argmax ?c < n" using argmax_less [of ?c] len by simp
  have "?c ! s' \<le> ?c ! argmax ?c" using argmax_ge [of s' ?c] len assms(2) by simp
  moreover have "?c ! s' = v ! s'" using assms(2) by (simp add: c)
  moreover have "?c ! argmax ?c \<le> v ! s'" using a assms(3) by (simp add: c)
  ultimately show ?thesis by simp
qed

lemma candidates_argmax:
  assumes "deterministic tm n succ" and "s' < n" and "0 < v ! s'"
  shows "argmax (candidates tm n v (succ s')) = s'"
proof (rule argmax_unique)
  show "s' < length (candidates tm n v (succ s'))" using assms(2) by (simp add: candidates_def)
  show "\<forall>j<length (candidates tm n v (succ s')). j \<noteq> s' \<longrightarrow>
          candidates tm n v (succ s') ! j < candidates tm n v (succ s') ! s'"
    using assms(2,3) by (simp add: candidates_deterministic [OF assms(1,2)])
qed

lemma strictly_dominant_dominant: "strictly_dominant n v q \<Longrightarrow> dominant n v q"
  unfolding strictly_dominant_def dominant_def by (metis less_eq_real_def)

lemma strictly_dominant_argmax: "strictly_dominant n v q \<Longrightarrow> argmax v = q"
  unfolding strictly_dominant_def by (intro argmax_unique) auto

lemma strictly_preferredD:
  assumes "strictly_preferred n dens p"
  shows "p < n" and "0 < dens p" and "\<And>s. s < n \<Longrightarrow> 0 \<le> dens s"
    and "\<And>s. s < n \<Longrightarrow> s \<noteq> p \<Longrightarrow> dens s < dens p"
  using assms by (auto simp: strictly_preferred_def list_all_iff)

lemma step_strictly_dominant:
  assumes det: "deterministic tm n succ" and dom: "dominant n v q"
    and pref: "strictly_preferred n dens (succ q)"
    and f: "\<And>s'. s' < n \<Longrightarrow> f (succ s') = v ! s'"
  shows "strictly_dominant n (map (\<lambda>s. f s * dens s) [0..<n]) (succ q)"
proof -
  let ?w = "map (\<lambda>s. f s * dens s) [0..<n]"
  have q: "q < n" "0 < v ! q" and v: "\<And>s. s < n \<Longrightarrow> 0 \<le> v ! s" "\<And>s. s < n \<Longrightarrow> v ! s \<le> v ! q"
    using dom by (auto simp: dominant_def)
  note p = strictly_preferredD [OF pref]
  have top: "?w ! succ q = v ! q * dens (succ q)" using p(1) f [OF q(1)] by simp
  have pos: "0 < ?w ! succ q" unfolding top using q(2) p(2) by simp
  have other: "0 \<le> ?w ! s \<and> (s \<noteq> succ q \<longrightarrow> ?w ! s < ?w ! succ q)" if "s < n" for s
  proof -
    from deterministic_surj [OF det that] obtain s' where s': "s' < n" "succ s' = s" by blast
    have ws: "?w ! s = v ! s' * dens s" using that f [OF s'(1)] s'(2) by simp
    have nonneg: "0 \<le> ?w ! s" unfolding ws using v(1) [OF s'(1)] p(3) [OF that] by simp
    have "?w ! s < ?w ! succ q" if ne: "s \<noteq> succ q"
    proof -
      have "v ! s' * dens s \<le> v ! q * dens s"
        using v(2) [OF s'(1)] p(3) [OF \<open>s < n\<close>] by (simp add: mult_right_mono)
      also have "\<dots> < v ! q * dens (succ q)"
        using p(4) [OF \<open>s < n\<close> ne] q(2) by simp
      finally show ?thesis unfolding ws top .
    qed
    with nonneg show ?thesis by blast
  qed
  show ?thesis
    unfolding strictly_dominant_def using p(1) pos other by simp
qed

lemma normalise_strictly_dominant:
  assumes "strictly_dominant n w q"
  shows "strictly_dominant n (normalise w) q"
proof -
  have w: "length w = n" "q < n" "0 < w ! q" "\<And>s. s < n \<Longrightarrow> 0 \<le> w ! s"
    "\<And>s. s < n \<Longrightarrow> s \<noteq> q \<Longrightarrow> w ! s < w ! q"
    using assms by (auto simp: strictly_dominant_def)
  have "sum_list w = (\<Sum>i<n. w ! i)"
    using w(1) by (simp add: sum_list_sum_nth atLeast0LessThan)
  moreover have "w ! q \<le> (\<Sum>i<n. w ! i)"
    using w(2,4) by (intro member_le_sum) auto
  ultimately have pos: "0 < sum_list w" using w(3) by simp
  show ?thesis
    unfolding strictly_dominant_def normalise_def
    using w pos by (simp add: divide_strict_right_mono)
qed

lemma forward_strictly_dominant:
  assumes "deterministic tm n succ" and "dominant n v q"
    and "strictly_preferred n dens (succ q)"
  shows "strictly_dominant n (forward tm n v dens) (succ q)"
  unfolding forward_def
  by (intro normalise_strictly_dominant step_strictly_dominant [OF assms])
     (rule candidates_sum [OF assms(1)])

lemma viterbi_step_strictly_dominant:
  assumes "deterministic tm n succ" and "dominant n v q"
    and "strictly_preferred n dens (succ q)"
  shows "strictly_dominant n (viterbi_step tm n v dens) (succ q)"
  unfolding viterbi_step_def
proof (intro step_strictly_dominant [OF assms])
  fix s' assume "s' < n"
  moreover from this have "0 \<le> v ! s'" using assms(2) by (simp add: dominant_def)
  ultimately show "candidates tm n v (succ s') ! argmax (candidates tm n v (succ s')) = v ! s'"
    by (rule candidates_max [OF assms(1)])
qed

lemma length_viterbi_path [simp]: "length (viterbi_path tm n v ds) = length ds"
proof (induction ds arbitrary: v)
  case (Cons d ds)
  have "length (viterbi_path tm n (viterbi_step tm n v d) ds) = length ds" by (rule Cons.IH)
  then show ?case
    by (cases "viterbi_path tm n (viterbi_step tm n v d) ds") (auto simp: Let_def)
qed simp

lemma length_viterbi_step [simp]: "length (viterbi_step tm n v dens) = n"
  by (simp add: viterbi_step_def)

lemma length_candidates [simp]: "length (candidates tm n v s) = n"
  by (simp add: candidates_def)

lemma viterbi_step_nonempty: "0 < n \<Longrightarrow> viterbi_step tm n v dens \<noteq> []"
  by (simp add: viterbi_step_def)

lemma candidates_nonempty: "0 < n \<Longrightarrow> candidates tm n v s \<noteq> []"
  by (simp add: candidates_def)

lemma viterbi_step_nth:
  "s < n \<Longrightarrow> viterbi_step tm n v dens ! s
     = candidates tm n v s ! argmax (candidates tm n v s) * dens s"
  by (simp add: viterbi_step_def)

lemma length_final_scores:
  "length v = n \<Longrightarrow> length (final_scores tm n v ds) = n"
  by (induction ds arbitrary: v) simp_all

lemma path_product_le_final:
  assumes tm: "\<And>s s'. 0 \<le> tm s s'" and ds: "list_all (\<lambda>d. \<forall>s. 0 \<le> d s) ds"
    and len: "length p = length ds" and p: "list_all (\<lambda>s. s < n) p"
    and v: "length v = n" and s: "s < n" and a: "a \<le> v ! s"
  shows "path_product tm a s ds p
           \<le> final_scores tm n v ds ! argmax (final_scores tm n v ds)"
  using ds len p v s a
proof (induction ds arbitrary: p v s a)
  case Nil
  then show ?case using argmax_ge [of s v] by simp
next
  case (Cons d ds)
  from Cons.prems(2) obtain s1 p' where p: "p = s1 # p'" "length p' = length ds"
    by (cases p) auto
  have s1: "s1 < n" and p': "list_all (\<lambda>s. s < n) p'" using Cons.prems(3) p by simp_all
  have d: "\<And>s. 0 \<le> d s" and ds: "list_all (\<lambda>d. \<forall>s. 0 \<le> d s) ds"
    using Cons.prems(1) by simp_all
  let ?c = "candidates tm n v s1"
  have "a * tm s s1 \<le> v ! s * tm s s1"
    using Cons.prems(6) tm by (simp add: mult_right_mono)
  also have "\<dots> = ?c ! s" using Cons.prems(5) by (simp add: candidates_def)
  also have "\<dots> \<le> ?c ! argmax ?c" using Cons.prems(5) by (intro argmax_ge) simp
  finally have "a * tm s s1 * d s1 \<le> ?c ! argmax ?c * d s1"
    using d by (simp add: mult_right_mono)
  then have "a * tm s s1 * d s1 \<le> viterbi_step tm n v d ! s1"
    using s1 by (simp add: viterbi_step_nth)
  from Cons.IH [OF ds p(2) p' _ s1 this]
  show ?case using p by simp
qed

lemma path_score_le_final:
  assumes tm: "\<And>s s'. 0 \<le> tm s s'" and ds: "list_all (\<lambda>d. \<forall>s. 0 \<le> d s) ds"
    and len: "length p = length ds" and p: "list_all (\<lambda>s. s < n) p" and ne: "ds \<noteq> []"
  shows "path_score tm n v ds p \<le> final_scores tm n v ds ! argmax (final_scores tm n v ds)"
proof -
  from ne obtain d ds' where dsc: "ds = d # ds'" by (cases ds) auto
  with len obtain s p' where pc: "p = s # p'" "length p' = length ds'" by (cases p) auto
  have s: "s < n" and p': "list_all (\<lambda>s. s < n) p'" using p pc by simp_all
  have ds': "list_all (\<lambda>d. \<forall>s. 0 \<le> d s) ds'" using ds dsc by simp
  have "path_product tm (viterbi_step tm n v d ! s) s ds' p'
          \<le> final_scores tm n (viterbi_step tm n v d) ds'
              ! argmax (final_scores tm n (viterbi_step tm n v d) ds')"
    by (rule path_product_le_final [OF tm ds' pc(2) p' _ s]) simp_all
  then show ?thesis using dsc pc s by (simp add: viterbi_step_nth)
qed

lemma viterbi_path_states:
  "0 < n \<Longrightarrow> list_all (\<lambda>s. s < n) (viterbi_path tm n v ds)"
proof (induction ds arbitrary: v)
  case (Cons d ds)
  let ?v1 = "viterbi_step tm n v d"
  have ih: "list_all (\<lambda>s. s < n) (viterbi_path tm n ?v1 ds)" using Cons by simp
  show ?case
  proof (cases "viterbi_path tm n ?v1 ds")
    case Nil
    have "?v1 \<noteq> []" using Cons.prems(1) by (rule viterbi_step_nonempty)
    then have "argmax ?v1 < length ?v1" by (rule argmax_less)
    then show ?thesis using Nil by (simp add: Let_def)
  next
    case (Cons s1 path)
    have "candidates tm n ?v1 s1 \<noteq> []" using Cons.prems(1) by (rule candidates_nonempty)
    then have "argmax (candidates tm n ?v1 s1) < length (candidates tm n ?v1 s1)"
      by (rule argmax_less)
    then show ?thesis using Cons ih by (simp add: Let_def)
  qed
qed simp

lemma viterbi_path_score:
  "0 < n \<Longrightarrow> ds \<noteq> [] \<Longrightarrow>
   path_score tm n v ds (viterbi_path tm n v ds)
     = final_scores tm n v ds ! argmax (final_scores tm n v ds)"
proof (induction ds arbitrary: v)
  case (Cons d ds)
  let ?v1 = "viterbi_step tm n v d"
  show ?case
  proof (cases ds)
    case Nil
    have "?v1 \<noteq> []" using Cons.prems(1) by (rule viterbi_step_nonempty)
    then have "argmax ?v1 < length ?v1" by (rule argmax_less)
    then show ?thesis using Nil by (simp add: viterbi_step_nth)
  next
    case ds: (Cons d1 ds1)
    have "length (viterbi_path tm n ?v1 ds) = length ds" by (rule length_viterbi_path)
    with ds obtain s1 path where vp: "viterbi_path tm n ?v1 ds = s1 # path"
      by (cases "viterbi_path tm n ?v1 ds") auto
    let ?s0 = "argmax (candidates tm n ?v1 s1)"
    have "candidates tm n ?v1 s1 \<noteq> []" using Cons.prems(1) by (rule candidates_nonempty)
    then have s0: "?s0 < n" using argmax_less [of "candidates tm n ?v1 s1"] by simp
    have ih: "path_score tm n ?v1 ds (s1 # path)
                = final_scores tm n ?v1 ds ! argmax (final_scores tm n ?v1 ds)"
      using Cons.IH [of ?v1] Cons.prems(1) ds vp by simp
    have "path_score tm n v (d # ds) (?s0 # s1 # path)
            = path_product tm (?v1 ! ?s0 * tm ?s0 s1 * d1 s1) s1 ds1 path"
      using ds s0 by (simp add: viterbi_step_nth)
    also have "?v1 ! ?s0 * tm ?s0 s1 = candidates tm n ?v1 s1 ! ?s0"
      using s0 by (simp add: candidates_def)
    also have "path_product tm (candidates tm n ?v1 s1 ! ?s0 * d1 s1) s1 ds1 path
                 = path_score tm n ?v1 ds (s1 # path)"
      using ds by simp
    finally show ?thesis using vp ih by (simp add: Let_def)
  qed
qed simp

text \<open>
  Viterbi decoding is exact: with transition probabilities and densities that are not
  negative, no path through the observations has a greater probability than the
  decoded one, whose states are states of the model.
\<close>

lemma viterbi_path_optimal:
  assumes "\<And>s s'. 0 \<le> tm s s'" and "list_all (\<lambda>d. \<forall>s. 0 \<le> d s) ds"
    and "length p = length ds" and "list_all (\<lambda>s. s < n) p" and "ds \<noteq> []"
  shows "path_score tm n v ds p \<le> path_score tm n v ds (viterbi_path tm n v ds)"
proof -
  from assms(3,4,5) have "0 < n" by (cases p) auto
  from viterbi_path_score [OF this assms(5)] path_score_le_final [OF assms]
  show ?thesis by simp
qed

text \<open>The forward vector is renormalised to sum 1 at every step.\<close>

lemma normalise_sums_to_one:
  "sum_list v \<noteq> 0 \<Longrightarrow> sum_list (normalise v) = 1"
proof -
  have "sum_list (map (\<lambda>x. x / c) v) = sum_list v / c" for c :: real
    by (induction v) (simp_all add: add_divide_distrib)
  then show "sum_list v \<noteq> 0 \<Longrightarrow> sum_list (normalise v) = 1"
    by (simp add: normalise_def)
qed

lemma forward_sums_to_one:
  "sum_list (map (\<lambda>s. sum_list (candidates tm n v s) * dens s) [0..<n]) \<noteq> 0 \<Longrightarrow>
   sum_list (forward tm n v dens) = 1"
  unfolding forward_def by (rule normalise_sums_to_one)

lemma viterbi_path_deterministic:
  assumes "deterministic tm n succ"
  shows "dominant n v q \<Longrightarrow> follows succ q p \<Longrightarrow> list_all2 (strictly_preferred n) ds p \<Longrightarrow>
         viterbi_path tm n v ds = p"
proof (induction ds arbitrary: v q p)
  case Nil
  then show ?case by simp
next
  case (Cons d ds)
  from Cons.prems(3) obtain s p' where p: "p = s # p'"
    and pref: "strictly_preferred n d s" and rest: "list_all2 (strictly_preferred n) ds p'"
    by (auto simp: list_all2_Cons1)
  from Cons.prems(2) p have s: "s = succ q" and fol: "follows succ s p'" by auto
  let ?v1 = "viterbi_step tm n v d"
  have sd: "strictly_dominant n ?v1 s"
    unfolding s using assms Cons.prems(1) pref [unfolded s]
    by (rule viterbi_step_strictly_dominant)
  have ih: "viterbi_path tm n ?v1 ds = p'"
    using Cons.IH [OF strictly_dominant_dominant [OF sd] fol rest] .
  show ?case
  proof (cases p')
    case Nil
    then show ?thesis using ih p strictly_dominant_argmax [OF sd] by simp
  next
    case (Cons s1 p'')
    with fol have s1: "s1 = succ s" by simp
    have "s < n" "0 < ?v1 ! s" using sd by (auto simp: strictly_dominant_def)
    then have "argmax (candidates tm n ?v1 s1) = s"
      unfolding s1 by (rule candidates_argmax [OF assms])
    then show ?thesis using ih p Cons by simp
  qed
qed

lemma deterministic_bar_transition:
  "deterministic (bar_transition bs) (num_states bs) (next_state bs)"
  unfolding deterministic_def num_states_def bar_transition_def
  by (auto simp: next_state_less inj_on_def dest: next_state_inj)

lemma follows_nth:
  "follows succ q p \<longleftrightarrow>
     (p = [] \<or> (p ! 0 = succ q \<and> (\<forall>t. Suc t < length p \<longrightarrow> p ! Suc t = succ (p ! t))))"
proof (induction p arbitrary: q)
  case (Cons s p)
  show ?case
  proof (cases p)
    case Nil
    then show ?thesis by simp
  next
    case (Cons s1 p1)
    have "(\<forall>t. Suc t < length (s # p) \<longrightarrow> (s # p) ! Suc t = succ ((s # p) ! t)) \<longleftrightarrow>
          (p ! 0 = succ s \<and> (\<forall>t. Suc t < length p \<longrightarrow> p ! Suc t = succ (p ! t)))"
      (is "?L \<longleftrightarrow> ?R")
    proof
      assume L: ?L
      have "p ! 0 = succ s" using L [rule_format, of 0] Cons by simp
      moreover have "p ! Suc t = succ (p ! t)" if "Suc t < length p" for t
        using L [rule_format, of "Suc t"] that by simp
      ultimately show ?R by blast
    next
      assume R: ?R
      show ?L
      proof (intro allI impI)
        fix t assume "Suc t < length (s # p)"
        then show "(s # p) ! Suc t = succ ((s # p) ! t)" using R by (cases t) auto
      qed
    qed
    then show ?thesis using Cons.IH [of s] Cons by auto
  qed
qed simp

lemma dbn_run_online_deterministic:
  assumes "deterministic (transition cfg) (num_states (beats_per_bar cfg)) succ"
  shows "dominant (num_states (beats_per_bar cfg)) (fwd st) q \<Longrightarrow> follows succ q p \<Longrightarrow>
         list_all2 (\<lambda>x s. any_nonzero (snd x) \<and>
                      strictly_preferred (num_states (beats_per_bar cfg)) (om (snd x)) s) inputs p \<Longrightarrow>
         \<exists>st'. dbn_run_online cfg om st inputs
                 = Inr (st', map (\<lambda>xs. [beat_record cfg (fst (fst xs)) (snd xs)]) (zip inputs p))"
proof (induction inputs arbitrary: st q p)
  case Nil
  then show ?case by simp
next
  case (Cons x inputs)
  let ?n = "num_states (beats_per_bar cfg)"
  from Cons.prems(3) obtain s p' where p: "p = s # p'"
    and nz: "any_nonzero (snd x)" and pref: "strictly_preferred ?n (om (snd x)) s"
    and rest: "list_all2 (\<lambda>x s. any_nonzero (snd x) \<and> strictly_preferred ?n (om (snd x)) s) inputs p'"
    by (auto simp: list_all2_Cons1)
  from Cons.prems(2) p have s: "s = succ q" and fol: "follows succ s p'" by auto
  let ?f1 = "forward (transition cfg) ?n (fwd st) (om (snd x))"
  let ?st1 = "st\<lparr>dbn_counter := dbn_counter st + 1, fwd := ?f1\<rparr>"
  have sd: "strictly_dominant ?n ?f1 s"
    unfolding s using assms Cons.prems(1) pref [unfolded s]
    by (rule forward_strictly_dominant)
  then have ne: "?f1 \<noteq> []" by (auto simp: strictly_dominant_def)
  have step: "dbn_process_online cfg om st x = Inr (?st1, [beat_record cfg (fst x) s])"
    using nz ne strictly_dominant_argmax [OF sd] by (simp add: dbn_process_online_def Let_def)
  have "dominant ?n (fwd ?st1) s" using strictly_dominant_dominant [OF sd] by simp
  from Cons.IH [OF this fol rest] obtain st' where
    "dbn_run_online cfg om ?st1 inputs
       = Inr (st', map (\<lambda>xs. [beat_record cfg (fst (fst xs)) (snd xs)]) (zip inputs p'))"
    by blast
  then show ?case using step p by simp
qed

lemma peaked_argmax: "peaked n v q \<Longrightarrow> argmax v = q"
  unfolding peaked_def by (intro argmax_unique) auto

lemma peaked_feeds:
  assumes "peaked n v q" and "0 < tm q s"
  shows "feeds tm n v s"
proof -
  have v: "length v = n" "q < n" "0 < v ! q" "\<And>s. s < n \<Longrightarrow> s \<noteq> q \<Longrightarrow> v ! s = 0"
    using assms(1) by (auto simp: peaked_def)
  have "0 \<le> v ! s' * tm s' s" if "s' < n" for s'
    using v(3) v(4) [OF that] assms(2) by (cases "s' = q") auto
  moreover have "0 < v ! q * tm q s" using v(3) assms(2) by simp
  ultimately show ?thesis
    using v(2) by (auto simp: feeds_def candidates_def list_all_iff list_ex_iff)
qed

lemma peaked_backpointer:
  assumes "peaked n v q" and "0 < tm q s"
  shows "argmax (candidates tm n v s) = q"
proof (rule argmax_unique)
  have v: "length v = n" "q < n" "0 < v ! q" "\<And>s. s < n \<Longrightarrow> s \<noteq> q \<Longrightarrow> v ! s = 0"
    using assms(1) by (auto simp: peaked_def)
  show "q < length (candidates tm n v s)" using v(2) by (simp add: candidates_def)
  show "\<forall>j<length (candidates tm n v s). j \<noteq> q \<longrightarrow>
          candidates tm n v s ! j < candidates tm n v s ! q"
    using v assms(2) by (simp add: candidates_def)
qed

lemma feeds_sum_pos:
  assumes "feeds tm n v s"
  shows "0 < sum_list (candidates tm n v s)"
proof -
  let ?c = "candidates tm n v s"
  from assms obtain i where i: "i < length ?c" "0 < ?c ! i"
    by (auto simp: feeds_def list_ex_length)
  have nn: "\<And>j. j < length ?c \<Longrightarrow> 0 \<le> ?c ! j"
    using assms by (auto simp: feeds_def list_all_length)
  have "sum_list ?c = (\<Sum>j<length ?c. ?c ! j)"
    by (simp add: sum_list_sum_nth atLeast0LessThan)
  moreover have "?c ! i \<le> (\<Sum>j<length ?c. ?c ! j)"
    using i(1) nn by (intro member_le_sum) auto
  ultimately show ?thesis using i(2) by simp
qed

lemma feeds_max_pos:
  assumes "feeds tm n v s"
  shows "0 < candidates tm n v s ! argmax (candidates tm n v s)"
proof -
  let ?c = "candidates tm n v s"
  from assms obtain i where i: "i < length ?c" "0 < ?c ! i"
    by (auto simp: feeds_def list_ex_length)
  with argmax_ge [OF i(1)] show ?thesis by simp
qed

lemma step_peaked:
  assumes "noiseless n dens p" and "0 < f p"
  shows "peaked n (map (\<lambda>s. f s * dens s) [0..<n]) p"
  using assms by (auto simp: noiseless_def peaked_def list_all_iff)

lemma normalise_peaked:
  assumes "peaked n w q"
  shows "peaked n (normalise w) q"
proof -
  have w: "length w = n" "q < n" "0 < w ! q" "\<And>s. s < n \<Longrightarrow> s \<noteq> q \<Longrightarrow> w ! s = 0"
    using assms by (auto simp: peaked_def)
  have "sum_list w = (\<Sum>i<n. w ! i)"
    using w(1) by (simp add: sum_list_sum_nth atLeast0LessThan)
  moreover have "w ! q \<le> (\<Sum>i<n. w ! i)"
  proof (intro member_le_sum)
    fix x assume "x \<in> {..<n} - {q}"
    then show "0 \<le> w ! x" using w(4) by simp
  qed (use w(2) in auto)
  ultimately have pos: "0 < sum_list w" using w(3) by simp
  show ?thesis
    unfolding peaked_def normalise_def using w pos by simp
qed

lemma forward_peaked:
  assumes "feeds tm n v p" and "noiseless n dens p"
  shows "peaked n (forward tm n v dens) p"
  unfolding forward_def
  by (intro normalise_peaked step_peaked assms(2) feeds_sum_pos [OF assms(1)])

lemma viterbi_step_peaked:
  assumes "feeds tm n v p" and "noiseless n dens p"
  shows "peaked n (viterbi_step tm n v dens) p"
  unfolding viterbi_step_def
  by (intro step_peaked assms(2) feeds_max_pos [OF assms(1)])

lemma viterbi_path_noiseless:
  "(p \<noteq> [] \<longrightarrow> feeds tm n v (hd p)) \<Longrightarrow> successively (\<lambda>s s1. 0 < tm s s1) p \<Longrightarrow>
   list_all2 (noiseless n) ds p \<Longrightarrow> viterbi_path tm n v ds = p"
proof (induction ds arbitrary: v p)
  case Nil
  then show ?case by simp
next
  case (Cons d ds)
  from Cons.prems(3) obtain s p' where p: "p = s # p'"
    and nl: "noiseless n d s" and rest: "list_all2 (noiseless n) ds p'"
    by (auto simp: list_all2_Cons1)
  let ?v1 = "viterbi_step tm n v d"
  have pk: "peaked n ?v1 s" using Cons.prems(1) p nl by (intro viterbi_step_peaked) auto
  show ?case
  proof (cases p')
    case Nil
    with rest have "ds = []" by simp
    then show ?thesis using p Nil peaked_argmax [OF pk] by simp
  next
    case (Cons s1 p'')
    with Cons.prems(2) p have tm: "0 < tm s s1" and suc: "successively (\<lambda>s s1. 0 < tm s s1) p'"
      by simp_all
    have "p' \<noteq> [] \<longrightarrow> feeds tm n ?v1 (hd p')" using Cons peaked_feeds [where tm = tm, OF pk tm] by simp
    from Cons.IH [OF this suc rest] have "viterbi_path tm n ?v1 ds = p'" .
    then show ?thesis using p Cons peaked_backpointer [where tm = tm, OF pk tm] by simp
  qed
qed

lemma dbn_run_online_noiseless:
  "(p \<noteq> [] \<longrightarrow> feeds (transition cfg) (num_states (beats_per_bar cfg)) (fwd st) (hd p)) \<Longrightarrow>
   successively (\<lambda>s s1. 0 < transition cfg s s1) p \<Longrightarrow>
   list_all2 (\<lambda>x s. any_nonzero (snd x) \<and>
                noiseless (num_states (beats_per_bar cfg)) (om (snd x)) s) inputs p \<Longrightarrow>
   \<exists>st'. dbn_run_online cfg om st inputs
           = Inr (st', map (\<lambda>xs. [beat_record cfg (fst (fst xs)) (snd xs)]) (zip inputs p))"
proof (induction inputs arbitrary: st p)
  case Nil
  then show ?case by simp
next
  case (Cons x inputs)
  let ?n = "num_states (beats_per_bar cfg)"
  from Cons.prems(3) obtain s p' where p: "p = s # p'"
    and nz: "any_nonzero (snd x)" and nl: "noiseless ?n (om (snd x)) s"
    and rest: "list_all2 (\<lambda>x s. any_nonzero (snd x) \<and> noiseless ?n (om (snd x)) s) inputs p'"
    by (auto simp: list_all2_Cons1)
  let ?f1 = "forward (transition cfg) ?n (fwd st) (om (snd x))"
  let ?st1 = "st\<lparr>dbn_counter := dbn_counter st + 1, fwd := ?f1\<rparr>"
  have pk: "peaked ?n ?f1 s" using Cons.prems(1) p nl by (intro forward_peaked) auto
  then have ne: "?f1 \<noteq> []" by (auto simp: peaked_def)
  have step: "dbn_process_online cfg om st x = Inr (?st1, [beat_record cfg (fst x) s])"
    using nz ne peaked_argmax [OF pk] by (simp add: dbn_process_online_def Let_def)
  have suc: "successively (\<lambda>s s1. 0 < transition cfg s s1) p'"
    using Cons.prems(2) p by (cases p') simp_all
  have "p' \<noteq> [] \<longrightarrow> feeds (transition cfg) ?n (fwd ?st1) (hd p')"
  proof
    assume "p' \<noteq> []"
    then obtain s1 p'' where p': "p' = s1 # p''" by (cases p') auto
    with Cons.prems(2) p have "0 < transition cfg s s1" by simp
    from peaked_feeds [where tm = "transition cfg", OF pk this] p' show "feeds (transition cfg) ?n (fwd ?st1) (hd p')" by simp
  qed
  from Cons.IH [OF this suc rest] obtain st' where
    "dbn_run_online cfg om ?st1 inputs
       = Inr (st', map (\<lambda>xs. [beat_record cfg (fst (fst xs)) (snd xs)]) (zip inputs p'))"
    by blast
  then show ?case using step p by simp
qed

lemma follows_successively:
  "follows succ q (s # p) \<longleftrightarrow> s = succ q \<and> successively (\<lambda>a b. b = succ a) (s # p)"
  by (induction p arbitrary: q s) auto

lemma zip_inputs_outputs:
  assumes "length beats = length acts" and "length p = length acts"
  shows "map (\<lambda>xs. [f (fst (fst xs)) (snd xs)]) (zip (zip beats (map g acts)) p)
           = map (\<lambda>bs. [f (fst bs) (snd bs)]) (zip beats p)"
  using assms by (simp add: list_eq_iff_nth_eq)

text \<open>
  C1, as the code has it: when the observations unambiguously favour a state path
  \<open>p\<close> and the features of every beat have a non-zero entry, the Viterbi path of
  \<open>process_offline\<close> is \<open>p\<close>, and the streaming calls of \<open>process_online\<close>, one per
  beat, all succeed and emit, beat for beat, the record of the state the Viterbi path
  has for that beat.
\<close>

theorem streaming_matches_viterbi:
  assumes "unambiguous cfg om activations p"
    and "list_all (\<lambda>x. any_nonzero [x]) activations"
    and "length beats = length activations"
  shows "offline_path cfg om activations = p \<and>
         (\<exists>st'. dbn_run_online cfg om (dbn_init cfg) (zip beats (map (\<lambda>x. [x]) activations))
            = Inr (st', map (\<lambda>bs. [beat_record cfg (fst bs) (snd bs)])
                          (zip beats (offline_path cfg om activations))))"
proof -
  let ?n = "num_states (beats_per_bar cfg)"
  let ?tm = "transition cfg"
  let ?inputs = "zip beats (map (\<lambda>x. [x]) activations)"
  have pref: "list_all2 (\<lambda>x s. strictly_preferred ?n (om [x]) s) activations p"
    using assms(1) by (simp add: unambiguous_def Let_def)
  then have len: "length p = length activations" by (simp add: list_all2_lengthD)
  have out: "map (\<lambda>xs. [beat_record cfg (fst (fst xs)) (snd xs)]) (zip ?inputs p)
           = map (\<lambda>bs. [beat_record cfg (fst bs) (snd bs)]) (zip beats p)"
    by (rule zip_inputs_outputs [OF assms(3) len])
  have inp: "list_all2 (\<lambda>x s. any_nonzero (snd x) \<and> strictly_preferred ?n (om (snd x)) s) ?inputs p"
    using pref assms(2,3) by (auto simp: list_all2_conv_all_nth list_all_length)
  from assms(1) consider
    (det) "?tm = bar_transition (beats_per_bar cfg)" "initial cfg = replicate ?n (1 / real ?n)"
      "successively (\<lambda>s s1. s1 = next_state (beats_per_bar cfg) s) p"
    | (onehot) "list_all2 (\<lambda>x s. noiseless ?n (om [x]) s) activations p"
      "p \<noteq> [] \<longrightarrow> feeds ?tm ?n (initial cfg) (hd p)"
      "successively (\<lambda>s s1. 0 < ?tm s s1) p"
    by (auto simp: unambiguous_def Let_def)
  then have both: "offline_path cfg om activations = p \<and>
     (\<exists>st'. dbn_run_online cfg om (dbn_init cfg) ?inputs
            = Inr (st', map (\<lambda>xs. [beat_record cfg (fst (fst xs)) (snd xs)]) (zip ?inputs p)))"
  proof cases
    case det
    have dt: "deterministic ?tm ?n (next_state (beats_per_bar cfg))"
      unfolding det(1) by (rule deterministic_bar_transition)
    show ?thesis
    proof (cases p)
      case Nil
      with len show ?thesis by (simp add: offline_path_def)
    next
      case (Cons s0 p')
      with pref have "strictly_preferred ?n (om [hd activations]) s0"
        by (cases activations) auto
      then have s0: "s0 < ?n" by (simp add: strictly_preferred_def)
      from deterministic_surj [OF dt s0] obtain q where
        q: "q < ?n" "next_state (beats_per_bar cfg) q = s0" by blast
      have fol: "follows (next_state (beats_per_bar cfg)) q p"
        unfolding Cons follows_successively using q(2) det(3) Cons by simp
      have dom: "dominant ?n (initial cfg) q"
        unfolding det(2) dominant_def using q(1) by simp
      have path: "viterbi_path ?tm ?n (initial cfg) (map (\<lambda>x. om [x]) activations) = p"
        using dt dom fol
      proof (rule viterbi_path_deterministic)
        show "list_all2 (strictly_preferred ?n) (map (\<lambda>x. om [x]) activations) p"
          using pref by (simp add: list_all2_map1)
      qed
      have "dominant ?n (fwd (dbn_init cfg)) q" using dom by (simp add: dbn_init_def)
      from dbn_run_online_deterministic [OF dt this fol inp] path
      show ?thesis by (simp add: offline_path_def)
    qed
  next
    case onehot
    have path: "viterbi_path ?tm ?n (initial cfg) (map (\<lambda>x. om [x]) activations) = p"
      using onehot(2,3)
    proof (rule viterbi_path_noiseless)
      show "list_all2 (noiseless ?n) (map (\<lambda>x. om [x]) activations) p"
        using onehot(1) by (simp add: list_all2_map1)
    qed
    have inp1: "list_all2 (\<lambda>x s. any_nonzero (snd x) \<and> noiseless ?n (om (snd x)) s) ?inputs p"
      using onehot(1) assms(2,3) by (auto simp: list_all2_conv_all_nth list_all_length)
    have "p \<noteq> [] \<longrightarrow> feeds ?tm ?n (fwd (dbn_init cfg)) (hd p)"
      using onehot(2) by (simp add: dbn_init_def)
    from dbn_run_online_noiseless [OF this onehot(3) inp1] path
    show ?thesis by (simp add: offline_path_def)
  qed
  then show ?thesis using out by simp
qed

text \<open>
  The theorem on one pattern of four beats and three beats whose features name the
  states 1, 2 and 3.
\<close>

theorem streaming_matches_viterbi_witness:
  "unambiguous
     \<lparr>beats_per_bar = [4], transition = bar_transition [4], initial = replicate 4 (1 / 4),
       downbeats = False, return_pattern = False, bump_beat_number = False\<rparr>
     coded_om [[[1]], [[2]], [[3]]] [1, 2, 3] \<and>
   list_all (\<lambda>x. any_nonzero [x]) [[[1]], [[2]], [[3 :: real]]] \<and>
   offline_path
     \<lparr>beats_per_bar = [4], transition = bar_transition [4], initial = replicate 4 (1 / 4),
       downbeats = False, return_pattern = False, bump_beat_number = False\<rparr>
     coded_om [[[1]], [[2]], [[3]]] = [1, 2, 3] \<and>
   (\<exists>st'. dbn_run_online
     \<lparr>beats_per_bar = [4], transition = bar_transition [4], initial = replicate 4 (1 / 4),
       downbeats = False, return_pattern = False, bump_beat_number = False\<rparr>
     coded_om
     (dbn_init \<lparr>beats_per_bar = [4], transition = bar_transition [4],
        initial = replicate 4 (1 / 4), downbeats = False, return_pattern = False,
        bump_beat_number = False\<rparr>)
     [(Some 10, [[[1]]]), (Some 11, [[[2]]]), (Some 12, [[[3]]])]
     = Inr (st', [[[10, 2]], [[11, 3]], [[12, 4]]]))"
proof -
  let ?cfg = "\<lparr>beats_per_bar = [4], transition = bar_transition [4], initial = replicate 4 (1 / 4),
       downbeats = False, return_pattern = False, bump_beat_number = False\<rparr>"
  let ?A = "[[[1]], [[2]], [[3 :: real]]]"
  have pref: "list_all2 (\<lambda>x s. strictly_preferred 4 (coded_om [x]) s) ?A [1, 2, 3]"
    by (simp add: strictly_preferred_def coded_om_def upt_rec)
  have un: "unambiguous ?cfg coded_om ?A [1, 2, 3]"
    unfolding unambiguous_def Let_def using pref by (simp add: num_states_def)
  have nz: "list_all (\<lambda>x. any_nonzero [x]) ?A" by (simp add: any_nonzero_def)
  have len: "length [Some 10, Some 11, Some (12 :: real)] = length ?A" by simp
  from streaming_matches_viterbi [OF un nz len]
  have path: "offline_path ?cfg coded_om ?A = [1, 2, 3]"
    and "\<exists>st'. dbn_run_online ?cfg coded_om (dbn_init ?cfg)
            (zip [Some 10, Some 11, Some 12] (map (\<lambda>x. [x]) ?A))
          = Inr (st', map (\<lambda>bs. [beat_record ?cfg (fst bs) (snd bs)])
                        (zip [Some 10, Some 11, Some 12] (offline_path ?cfg coded_om ?A)))"
    by blast+
  then have "\<exists>st'. dbn_run_online ?cfg coded_om (dbn_init ?cfg)
            [(Some 10, [[[1]]]), (Some 11, [[[2]]]), (Some 12, [[[3]]])]
          = Inr (st', [[[10, 2]], [[11, 3]], [[12, 4]]])"
    unfolding path by (simp add: beat_record_def state_positions_def upt_rec)
  with un nz path show ?thesis by blast
qed

text \<open>
  C1 as stated fails where a beat's features are all zero: with one pattern of two
  beats and features that name the states 1 and 0, the observations unambiguously
  favour the path 1, 0, which Viterbi decoding returns, but \<open>process_online\<close> takes
  the second beat's features for absent, leaves the forward vector as it is and makes
  no decision for that beat.
\<close>

theorem streaming_skips_zero_feature:
  "unambiguous
     \<lparr>beats_per_bar = [2], transition = bar_transition [2], initial = replicate 2 (1 / 2),
       downbeats = False, return_pattern = False, bump_beat_number = False\<rparr>
     coded_om [[[1]], [[0]]] [1, 0] \<and>
   offline_path
     \<lparr>beats_per_bar = [2], transition = bar_transition [2], initial = replicate 2 (1 / 2),
       downbeats = False, return_pattern = False, bump_beat_number = False\<rparr>
     coded_om [[[1]], [[0]]] = [1, 0] \<and>
   dbn_run_online
     \<lparr>beats_per_bar = [2], transition = bar_transition [2], initial = replicate 2 (1 / 2),
       downbeats = False, return_pattern = False, bump_beat_number = False\<rparr>
     coded_om
     (dbn_init \<lparr>beats_per_bar = [2], transition = bar_transition [2],
        initial = replicate 2 (1 / 2), downbeats = False, return_pattern = False,
        bump_beat_number = False\<rparr>)
     [(Some 10, [[[1]]]), (Some 11, [[[0]]])]
   = Inr (\<lparr>dbn_counter = 1, fwd = [1 / 28, 27 / 28]\<rparr>, [[[10, 2]], []])"
proof -
  let ?cfg = "\<lparr>beats_per_bar = [2], transition = bar_transition [2], initial = replicate 2 (1 / 2),
       downbeats = False, return_pattern = False, bump_beat_number = False\<rparr>"
  let ?A = "[[[1]], [[0 :: real]]]"
  have pref: "list_all2 (\<lambda>x s. strictly_preferred 2 (coded_om [x]) s) ?A [1, 0]"
    by (simp add: strictly_preferred_def coded_om_def upt_rec)
  have un: "unambiguous ?cfg coded_om ?A [1, 0]"
    unfolding unambiguous_def Let_def using pref by (simp add: num_states_def)
  have path: "offline_path ?cfg coded_om ?A = [1, 0]"
    by (simp add: offline_path_def num_states_def viterbi_step_def candidates_def
        bar_transition_def coded_om_def upt_rec Let_def numeral_2_eq_2)
  have run: "dbn_run_online ?cfg coded_om (dbn_init ?cfg)
       [(Some 10, [[[1]]]), (Some 11, [[[0]]])]
     = Inr (\<lparr>dbn_counter = 1, fwd = [1 / 28, 27 / 28]\<rparr>, [[[10, 2]], []])"
    by (simp add: dbn_process_online_def dbn_init_def any_nonzero_def forward_def normalise_def
        candidates_def bar_transition_def coded_om_def num_states_def beat_record_def
        state_positions_def upt_rec Let_def numeral_2_eq_2)
  from un path run show ?thesis by blast
qed

lemma follows_iterate: "follows succ q (map (\<lambda>t. (succ ^^ Suc t) q) [0..<T])"
proof (induction T arbitrary: q)
  case (Suc T)
  have split: "[0..<Suc T] = 0 # map Suc [0..<T]"
    by (simp only: map_Suc_upt) (rule upt_conv_Cons, simp)
  have "follows succ (succ q) (map (\<lambda>t. (succ ^^ Suc t) (succ q)) [0..<T])" by (rule Suc.IH)
  moreover have "(succ ^^ Suc t) (succ q) = (succ ^^ Suc (Suc t)) q" for t
    by (simp only: funpow.simps comp_apply funpow_swap1)
  ultimately have "follows succ (succ q) (map (\<lambda>t. (succ ^^ Suc (Suc t)) q) [0..<T])"
    by (simp only:)
  moreover have "(succ ^^ Suc 0) q = succ q" by simp
  ultimately show ?case unfolding split by (simp add: comp_def del: funpow.simps)
qed simp

lemma iterate_cycle: "(next_state [4] ^^ Suc t) 3 = t mod 4"
proof (induction t)
  case (Suc t)
  have "(next_state [4] ^^ Suc (Suc t)) 3 = next_state [4] ((next_state [4] ^^ Suc t) 3)"
    by (simp only: funpow.simps comp_apply)
  also have "\<dots> = next_state [4] (t mod 4)" by (simp only: Suc.IH)
  also have "\<dots> = Suc (t mod 4) mod 4" by simp
  also have "\<dots> = Suc t mod 4" by (rule mod_Suc_eq)
  finally show ?case .
qed simp

lemma follows_cycle: "follows (next_state [4]) 3 (map (\<lambda>t. t mod 4) [0..<T])"
  using follows_iterate [of "next_state [4]" 3 T] by (simp only: iterate_cycle)

lemma offline_numbers:
  assumes "offline_path cfg om activations = path" and "path \<noteq> []" and "\<not> downbeats cfg"
  shows "dbn_process_offline cfg om beats activations =
     Inr (map (\<lambda>bk. fst bk @ [real_of_int (snd bk)])
            (zip beats
               (map (\<lambda>s. int (state_positions (beats_per_bar cfg) ! s) + 1) path
                @ [int ((state_positions (beats_per_bar cfg) ! last path + 1)
                        mod beats_per_bar cfg ! (state_patterns (beats_per_bar cfg) ! last path))
                   + 1])))"
  using assms
  by (simp add: dbn_process_offline_def Let_def last_map comp_def zmod_int add.commute)


text \<open>
  C2, as the code has it. For a log-density matrix with at least one row, and with the
  downbeats option off, \<open>process_offline\<close> decodes a Viterbi path with one state per
  row and returns the beat rows, each with its beat number: the position plus one of
  each state on the path, then one more number, the successor of the last decoded
  position in the cycle of that state's pattern, plus one. In particular, for one
  pattern with four beats per bar, deterministic transitions and a uniform initial
  distribution, when the observation of every beat \<open>t\<close> strictly prefers the state
  \<open>t mod 4\<close>, the beat numbers are 1, 2, 3, 4, 1, ... in order.
\<close>

theorem offline_beat_numbers:
  "(activations \<noteq> [] \<and> \<not> downbeats cfg \<longrightarrow>
      length (offline_path cfg om activations) = length activations \<and>
      dbn_process_offline cfg om beats activations =
        Inr (map (\<lambda>bk. fst bk @ [real_of_int (snd bk)])
               (zip beats
                  (map (\<lambda>s. int (state_positions (beats_per_bar cfg) ! s) + 1)
                     (offline_path cfg om activations)
                   @ [int ((state_positions (beats_per_bar cfg)
                              ! last (offline_path cfg om activations) + 1)
                           mod beats_per_bar cfg
                               ! (state_patterns (beats_per_bar cfg)
                                    ! last (offline_path cfg om activations)))
                      + 1])))) \<and>
   (activations \<noteq> [] \<and> \<not> downbeats cfg \<and>
    beats_per_bar cfg = [4] \<and> transition cfg = bar_transition [4] \<and>
    initial cfg = replicate 4 (1 / 4) \<and>
    list_all2 (\<lambda>x t. strictly_preferred 4 (om [x]) (t mod 4)) activations
      [0..<length activations] \<longrightarrow>
      dbn_process_offline cfg om beats activations =
        Inr (map (\<lambda>bk. fst bk @ [real_of_int (snd bk)])
               (zip beats (map (\<lambda>t. int (t mod 4) + 1) [0..<Suc (length activations)]))))"
proof (intro conjI impI)
  assume a: "activations \<noteq> [] \<and> \<not> downbeats cfg"
  show "length (offline_path cfg om activations) = length activations"
    by (simp add: offline_path_def)
  then have ne: "offline_path cfg om activations \<noteq> []" using a by auto
  have nd: "\<not> downbeats cfg" using a by simp
  show "dbn_process_offline cfg om beats activations =
        Inr (map (\<lambda>bk. fst bk @ [real_of_int (snd bk)])
               (zip beats
                  (map (\<lambda>s. int (state_positions (beats_per_bar cfg) ! s) + 1)
                     (offline_path cfg om activations)
                   @ [int ((state_positions (beats_per_bar cfg)
                              ! last (offline_path cfg om activations) + 1)
                           mod beats_per_bar cfg
                               ! (state_patterns (beats_per_bar cfg)
                                    ! last (offline_path cfg om activations)))
                      + 1])))"
    by (rule offline_numbers [OF refl ne nd])
next
  assume a: "activations \<noteq> [] \<and> \<not> downbeats cfg \<and>
    beats_per_bar cfg = [4] \<and> transition cfg = bar_transition [4] \<and>
    initial cfg = replicate 4 (1 / 4) \<and>
    list_all2 (\<lambda>x t. strictly_preferred 4 (om [x]) (t mod 4)) activations
      [0..<length activations]"
  let ?T = "length activations"
  let ?p = "map (\<lambda>t. t mod 4) [0..<?T]"
  from a have ne0: "activations \<noteq> []" and nd: "\<not> downbeats cfg"
    and bpb: "beats_per_bar cfg = [4]" and tmx: "transition cfg = bar_transition [4]"
    and ini: "initial cfg = replicate 4 (1 / 4)"
    and la: "list_all2 (\<lambda>x t. strictly_preferred 4 (om [x]) (t mod 4)) activations
      [0..<length activations]"
    by blast+
  have T: "0 < ?T" using ne0 by simp
  have n: "num_states (beats_per_bar cfg) = 4" using bpb by (simp add: num_states_def)
  have dt: "deterministic (transition cfg) 4 (next_state [4])"
    using deterministic_bar_transition [of "[4]"] tmx by (simp add: num_states_def)
  have dom: "dominant 4 (initial cfg) 3" using ini by (simp add: dominant_def)
  have fol: "follows (next_state [4]) 3 ?p" by (rule follows_cycle)
  have pref: "list_all2 (strictly_preferred 4) (map (\<lambda>x. om [x]) activations) ?p"
    using la by (simp add: list_all2_map1 list_all2_map2)
  have path: "offline_path cfg om activations = ?p"
    unfolding offline_path_def n by (rule viterbi_path_deterministic [OF dt dom fol pref])
  have ne: "?p \<noteq> []" using T by simp
  have pos: "state_positions (beats_per_bar cfg) ! (t mod 4) = t mod 4" for t
    using bpb by (simp add: state_positions_def)
  have pat: "state_patterns (beats_per_bar cfg) ! ((?T - 1) mod 4) = 0"
    using bpb by (simp add: state_patterns_def nth_replicate)
  have lastp: "last ?p = (?T - 1) mod 4" using T by (simp add: last_map)
  have wrap: "((?T - 1) mod 4 + 1) mod 4 = ?T mod 4"
    using T by (cases ?T) (simp_all add: mod_Suc_eq)
  have nums: "map (\<lambda>s. int (state_positions (beats_per_bar cfg) ! s) + 1) ?p
               @ [int ((state_positions (beats_per_bar cfg) ! last ?p + 1)
                        mod beats_per_bar cfg ! (state_patterns (beats_per_bar cfg) ! last ?p)) + 1]
             = map (\<lambda>t. int (t mod 4) + 1) [0..<Suc ?T]"
    unfolding lastp using bpb pos pat wrap by (simp add: comp_def)
  show "dbn_process_offline cfg om beats activations =
        Inr (map (\<lambda>bk. fst bk @ [real_of_int (snd bk)])
               (zip beats (map (\<lambda>t. int (t mod 4) + 1) [0..<Suc (length activations)])))"
    unfolding nums [symmetric] by (rule offline_numbers [OF path ne nd])
qed

text \<open>
  The theorem on four observations that name the positions 0, 1, 2 and 3, and five
  beats: the beat numbers are 1, 2, 3, 4, 1.
\<close>

theorem offline_beat_numbers_witness:
  "[[[0]], [[1]], [[2]], [[3 :: real]]] \<noteq> [] \<and>
   list_all2 (\<lambda>x t. strictly_preferred 4 (coded_om [x]) (t mod 4))
     [[[0]], [[1]], [[2]], [[3]]] [0..<length [[[0]], [[1]], [[2]], [[3 :: real]]]] \<and>
   dbn_process_offline
     \<lparr>beats_per_bar = [4], transition = bar_transition [4], initial = replicate 4 (1 / 4),
       downbeats = False, return_pattern = False, bump_beat_number = False\<rparr>
     coded_om [[10], [11], [12], [13], [14]] [[[0]], [[1]], [[2]], [[3]]]
   = Inr [[10, 1], [11, 2], [12, 3], [13, 4], [14, 1]]"
proof -
  let ?cfg = "\<lparr>beats_per_bar = [4], transition = bar_transition [4], initial = replicate 4 (1 / 4),
       downbeats = False, return_pattern = False, bump_beat_number = False\<rparr>"
  let ?A = "[[[0]], [[1]], [[2]], [[3 :: real]]]"
  have la: "list_all2 (\<lambda>x t. strictly_preferred 4 (coded_om [x]) (t mod 4)) ?A [0..<length ?A]"
    by (simp add: strictly_preferred_def coded_om_def upt_rec)
  have up: "map (\<lambda>t. int (t mod 4) + 1) [0..<Suc (length ?A)] = [1, 2, 3, 4, 1]"
    by (simp add: upt_rec)
  have hyp: "?A \<noteq> [] \<and> \<not> downbeats ?cfg \<and>
    beats_per_bar ?cfg = [4] \<and> transition ?cfg = bar_transition [4] \<and>
    initial ?cfg = replicate 4 (1 / 4) \<and>
    list_all2 (\<lambda>x t. strictly_preferred 4 (coded_om [x]) (t mod 4)) ?A [0..<length ?A]"
    using la by simp
  have "dbn_process_offline ?cfg coded_om [[10], [11], [12], [13], [14]] ?A =
        Inr (map (\<lambda>bk. fst bk @ [real_of_int (snd bk)])
               (zip [[10], [11], [12], [13], [14]]
                  (map (\<lambda>t. int (t mod 4) + 1) [0..<Suc (length ?A)])))"
    by (rule offline_beat_numbers [of ?A ?cfg coded_om "[[10], [11], [12], [13], [14]]",
          THEN conjunct2, rule_format, OF hyp])
  then have "dbn_process_offline ?cfg coded_om [[10], [11], [12], [13], [14]] ?A
     = Inr [[10, 1], [11, 2], [12, 3], [13, 4], [14, 1]]"
    unfolding up by simp
  with la show ?thesis by simp
qed

text \<open>
  C2 as stated fails on the matrix with no row: the Viterbi path is empty, there is no
  last beat number to wrap, and \<open>beat_numbers[-1]\<close> raises IndexError.
\<close>

theorem offline_no_observation_IndexError:
  "dbn_process_offline
     \<lparr>beats_per_bar = [4], transition = bar_transition [4], initial = replicate 4 (1 / 4),
       downbeats = False, return_pattern = False, bump_beat_number = False\<rparr>
     coded_om [[10]] []
   = Inl (IndexError ''index -1 is out of bounds for axis 0 with size 0'')"
  by (simp add: dbn_process_offline_def offline_path_def)

lemma not_any_nonzero_zeros: "\<not> any_nonzero [zeros n d]"
  by (simp add: any_nonzero_def zeros_def list_ex_iff)

text \<open>
  C10: presence is decided by truthiness. In \<open>BeatSyncProcessor.process_online\<close> the
  beat time 0 is no beat: the call leaves the same state and features as the call
  with the empty beat array, emits no features and keeps the last beat and the
  subdivision lengths. In \<open>DBNBarTrackingProcessor.process_online\<close> features without
  a non-zero entry, such as the all-zero feature matrix of a beat, only advance the
  counter: the forward vector is unchanged and nothing is emitted.
\<close>

theorem truthiness_decides_presence:
  "\<not> any_beat (Some 0) \<and>
   map_sum id (\<lambda>r. (fst r, snd (snd r))) (process_online scfg sst (Some 0, feature))
     = map_sum id (\<lambda>r. (fst r, snd (snd r))) (process_online scfg sst (None, feature)) \<and>
   (\<forall>st' b F. process_online scfg sst (Some 0, feature) = Inr (st', b, F) \<longrightarrow>
        F = [] \<and> last_beat st' = last_beat sst \<and> div_frames st' = div_frames sst) \<and>
   \<not> any_nonzero [zeros n d] \<and>
   (\<not> any_nonzero activation \<longrightarrow>
      dbn_process_online cfg om st (beat, activation)
        = Inr (st\<lparr>dbn_counter := dbn_counter st + 1\<rparr>, []))"
proof (intro conjI allI impI)
  show "\<not> any_beat (Some 0)" by (simp add: any_beat_def)
  show "map_sum id (\<lambda>r. (fst r, snd (snd r))) (process_online scfg sst (Some 0, feature))
     = map_sum id (\<lambda>r. (fst r, snd (snd r))) (process_online scfg sst (None, feature))"
    by (auto simp: process_online_def any_beat_def Let_def split: option.splits sum.splits)
  show "\<not> any_nonzero [zeros n d]" by (rule not_any_nonzero_zeros)
next
  fix st' b F
  assume po: "process_online scfg sst (Some 0, feature) = Inr (st', b, F)"
  then show "F = []"
    by (auto simp: process_online_def any_beat_def Let_def split: option.splits sum.splits)
  show "last_beat st' = last_beat sst"
    using po
    by (auto simp: process_online_def any_beat_def Let_def add_frame_def
        split: option.splits sum.splits if_splits)
  show "div_frames st' = div_frames sst"
    using po
    by (auto simp: process_online_def any_beat_def Let_def add_frame_def
        split: option.splits sum.splits if_splits)
next
  assume "\<not> any_nonzero activation"
  then show "dbn_process_online cfg om st (beat, activation)
        = Inr (st\<lparr>dbn_counter := dbn_counter st + 1\<rparr>, [])"
    by (simp add: dbn_process_online_def)
qed

text \<open>
  The theorem on the all-zero features of a beat with four subdivisions, and on a beat
  at time 0 after a first beat.
\<close>

theorem truthiness_decides_presence_witness:
  "\<not> any_nonzero [[[0], [0], [0], [0]]] \<and>
   dbn_process_online
     \<lparr>beats_per_bar = [4], transition = bar_transition [4], initial = replicate 4 (1 / 4),
       downbeats = False, return_pattern = False, bump_beat_number = False\<rparr>
     coded_om \<lparr>dbn_counter = 3, fwd = [1 / 28, 27 / 28, 0, 0]\<rparr>
     (Some 10, [[[0], [0], [0], [0]]])
   = Inr (\<lparr>dbn_counter = 4, fwd = [1 / 28, 27 / 28, 0, 0]\<rparr>, []) \<and>
   process_online \<lparr>beat_subdivisions = 4, feat_dim = 1, fps = 100\<rparr>
     \<lparr>feat_sum = [0], counter = 0, current_div = 0, div_frames = None,
       last_beat = Some 1, beat_features = [[0], [0], [0], [0]]\<rparr> (Some 0, 7)
   = Inr (\<lparr>feat_sum = [0], counter = 0, current_div = 0, div_frames = None,
           last_beat = Some 1, beat_features = [[0], [0], [0], [0]]\<rparr>, None, [])"
proof -
  let ?cfg = "\<lparr>beats_per_bar = [4], transition = bar_transition [4], initial = replicate 4 (1 / 4),
       downbeats = False, return_pattern = False, bump_beat_number = False\<rparr>"
  let ?st = "\<lparr>dbn_counter = 3, fwd = [1 / 28, 27 / 28, 0, 0]\<rparr>"
  let ?scfg = "\<lparr>beat_subdivisions = 4, feat_dim = 1, fps = 100\<rparr>"
  let ?sst = "\<lparr>feat_sum = [0], counter = 0, current_div = 0, div_frames = None,
       last_beat = Some 1, beat_features = [[0], [0], [0], [0]]\<rparr>"
  have nz: "\<not> any_nonzero [[[0], [0], [0], [0]]]" by (simp add: any_nonzero_def)
  note t = truthiness_decides_presence [of ?scfg ?sst 7 4 1 "[[[0], [0], [0], [0]]]" ?cfg
      coded_om ?st "Some 10"]
  from t nz have dbn: "dbn_process_online ?cfg coded_om ?st (Some 10, [[[0], [0], [0], [0]]])
      = Inr (?st\<lparr>dbn_counter := dbn_counter ?st + 1\<rparr>, [])"
    by blast
  have po: "process_online ?scfg ?sst (Some 0, 7) = Inr (?sst, None, [])"
    by (simp add: process_online_def any_beat_def)
  from nz dbn po show ?thesis by simp
qed

end
